theory Spec2Isabelle
  imports Main "HOL-Library.Word" "HOL-Library.Monad_Syntax"
begin

unbundle bit_operations_syntax

section \<open>Machine words, bytes and the constants of \<^verbatim>\<open>ht-divchn.c\<close>\<close>

text \<open>
  The C type \<^verbatim>\<open>size_t\<close> is \<open>'a word\<close> for a host word width \<open>LENGTH('a)\<close>; the
  source is written for any host with \<^verbatim>\<open>CHAR_BIT * sizeof(size_t) \<ge> 16\<close>. A byte
  (\<^verbatim>\<open>unsigned char\<close>) is an \<open>8 word\<close>. Pointers to nodes are \<open>'a word\<close> addresses, with
  \<^verbatim>\<open>NULL\<close> the address \<open>0\<close>.
\<close>

type_synonym byte = "8 word"

definition C_BYTE_BIT :: nat where
  "C_BYTE_BIT = 8"

definition sizeof_size_t :: "'a::len itself \<Rightarrow> nat" where
  "sizeof_size_t T = LENGTH('a) div C_BYTE_BIT"

definition C_FULL_BIT :: "'a::len itself \<Rightarrow> nat" where
  "C_FULL_BIT T = C_BYTE_BIT * sizeof_size_t T"

definition C_SIZE_MAX :: "'a::len word" where
  "C_SIZE_MAX = - 1"

definition C_BUILD_SHIFT :: nat where
  "C_BUILD_SHIFT = 16"

text \<open>The hosts the source is written for: whole bytes, at least 16 bits.\<close>

definition size_t_ok :: "'a::len itself \<Rightarrow> bool" where
  "size_t_ok T \<longleftrightarrow> C_BYTE_BIT dvd LENGTH('a) \<and> 16 \<le> LENGTH('a)"

definition C_PRIME_PARTS :: "nat list" where
  "C_PRIME_PARTS =
  [0x0607,
   0x0c2f,
   0x1843,
   0x3037,
   0x5dad,
   0xbe21,
   0x5b0b, 0x0001,
   0xd8d5, 0x0002,
   0xc219, 0x0005,
   0x0077, 0x000c,
   0xa243, 0x0016,
   0x2029, 0x0031,
   0xcc21, 0x005f,
   0x5427, 0x00bf,
   0x037f, 0x0180,
   0x42bb, 0x030f,
   0x1c75, 0x06b7,
   0x96ad, 0x0c98,
   0x96b7, 0x1898,
   0xc10f, 0x2ecf,
   0x425b, 0x600f,
   0x0007, 0xc000,
   0x016f, 0x8000, 0x0001,
   0x9345, 0xffc8, 0x0002,
   0x5523, 0xf272, 0x0005,
   0x1575, 0x0a63, 0x000c,
   0x22fb, 0xca07, 0x001b,
   0xc513, 0x4d6b, 0x0031,
   0xa6cd, 0x50f3, 0x0061,
   0xa021, 0x5460, 0x00be,
   0xea29, 0x7882, 0x0179,
   0xeaaf, 0x7c3d, 0x02f5,
   0xab5f, 0x5a69, 0x05ff,
   0x6b1f, 0x29ef, 0x0c24,
   0xc81b, 0x35a7, 0x17fe,
   0x57b7, 0xccbe, 0x2ffb,
   0xc8fb, 0x1da8, 0x6bf3,
   0x82c3, 0x2c9f, 0xc2cc,
   0x3233, 0x1c54, 0x7d40, 0x0001,
   0x60ad, 0x46a1, 0xf55e, 0x0002,
   0x6bab, 0x40c4, 0xf12a, 0x0005,
   0xb24d, 0x6765, 0x38b5, 0x000b,
   0x789f, 0xfd94, 0xc6b2, 0x0017,
   0x0d35, 0x5443, 0xff54, 0x0030,
   0x2465, 0x74f9, 0x42d1, 0x005e,
   0xd017, 0x90c7, 0x37b3, 0x00c6,
   0x5055, 0x5a82, 0x64df, 0x0193,
   0x6f8f, 0x423b, 0x8949, 0x0304,
   0xd627, 0x08e0, 0x0b2f, 0x05fe,
   0xbbc1, 0x662c, 0x4d90, 0x0bad,
   0xf7d3, 0x45a1, 0x8ccb, 0x185d,
   0xc647, 0x3c91, 0x46b2, 0x2e9b,
   0x58a1, 0xbd96, 0x2836, 0x5f8c,
   0x8969, 0x4c70, 0x6dbe, 0xdad8]"

definition C_PRIME_PARTS_COUNT :: nat where
  "C_PRIME_PARTS_COUNT = 6 + 16 * (2 + 3 + 4)"

definition C_PARTS_PER_PRIME :: "nat list" where
  "C_PARTS_PER_PRIME = [1, 2, 3, 4]"

definition C_PARTS_ACC_COUNTS :: "nat list" where
  "C_PARTS_ACC_COUNTS = [6, 6 + 16 * 2, 6 + 16 * (2 + 3), 6 + 16 * (2 + 3 + 4)]"

text \<open>
  The primes the source documents beside the table, one per ladder position, in the
  table's order.
\<close>

definition C_PRIMES :: "nat list" where
  "C_PRIMES =
  [1543, 3119, 6211, 12343, 23981, 48673,
   88843, 186581, 377369, 786551, 1483331, 3219497, 6278177, 12538919,
   25166719, 51331771, 112663669, 211326637, 412653239, 785367311,
   1611612763, 3221225479,
   6442451311, 12881269573, 25542415651, 51713873269, 119353582331,
   211752305939, 417969972941, 817459404833, 1621224516137, 3253374675631,
   6594291673951, 13349461912351, 26380589320219, 52758518323127,
   118691918825723, 214182177768131,
   419189283369523, 832735214133421, 1672538661088171, 3158576518771277,
   6692396525189279, 13791536538127669, 26532115188884581, 55793289756397591,
   113545326073368661, 217449629757435791, 431794910914467367,
   841413987972987841, 1755714234418853843, 3358355678469146183,
   6884922145916737697, 15769474759331449193]"

text \<open>
  A read of a constant table at a \<^verbatim>\<open>size_t\<close> index. A read past the end of the table is
  undefined behaviour in C: the model has no value for it.
\<close>

definition tab :: "nat list \<Rightarrow> 'a::len word \<Rightarrow> 'a word option" where
  "tab xs i = (if unat i < length xs then Some (of_nat (xs ! unat i)) else None)"

subsection \<open>\<^verbatim>\<open>build_prime\<close> and \<^verbatim>\<open>is_overflow\<close>\<close>

text \<open>
  The loop \<^verbatim>\<open>for (i = 0; i < count; i++)\<close> of \<^verbatim>\<open>build_prime\<close>; the second argument
  is the number of iterations left, the third the loop index \<open>i\<close>.
\<close>

fun build_prime_from :: "'a::len word \<Rightarrow> nat \<Rightarrow> nat \<Rightarrow> 'a word \<Rightarrow> 'a word option" where
  "build_prime_from start 0 i p = Some p"
| "build_prime_from start (Suc n) i p =
     (case tab C_PRIME_PARTS (start + of_nat i) of
        None \<Rightarrow> None
      | Some n_shift \<Rightarrow>
          build_prime_from start n (Suc i) (p OR push_bit (i * C_BUILD_SHIFT) n_shift))"

definition build_prime :: "'a::len word \<Rightarrow> 'a word \<Rightarrow> 'a word option" where
  "build_prime start cnt = build_prime_from start (unat cnt) 0 0"

text \<open>The loop \<^verbatim>\<open>while (n_shift){n_shift >>= 1; c++;}\<close> of \<^verbatim>\<open>is_overflow\<close>.\<close>

function bit_count :: "'a::len word \<Rightarrow> 'a word \<Rightarrow> 'a word" where
  "bit_count n_shift c = (if n_shift \<noteq> 0 then bit_count (drop_bit 1 n_shift) (c + 1) else c)"
  by pat_completeness auto
termination
proof (relation "measure (\<lambda>(n_shift, c). unat n_shift)")
  show "wf (measure (\<lambda>(n_shift :: 'a word, c :: 'a word). unat n_shift))"
    by simp
next
  fix n_shift c :: "'a word"
  assume nz: "n_shift \<noteq> 0"
  have "unat (drop_bit 1 n_shift) = drop_bit 1 (unat n_shift)"
    by (rule unat_drop_bit_eq)
  then have "unat (drop_bit 1 n_shift) = unat n_shift div 2"
    by (simp only: drop_bit_eq_div power_one_right)
  moreover have "0 < unat n_shift"
    using nz by (simp add: unat_gt_0)
  ultimately show "((drop_bit 1 n_shift, c + 1), (n_shift, c))
      \<in> measure (\<lambda>(n_shift, c). unat n_shift)"
    by simp
qed

declare bit_count.simps [simp del]

definition is_overflow :: "'a::len word \<Rightarrow> 'a word \<Rightarrow> bool option" where
  "is_overflow start cnt =
     (case tab C_PRIME_PARTS (start + (cnt - 1)) of
        None \<Rightarrow> None
      | Some n_shift \<Rightarrow>
          Some (bit_count n_shift 0 + (cnt - 1) * of_nat C_BUILD_SHIFT
                  > of_nat (C_FULL_BIT TYPE('a))))"

subsection \<open>Load-factor arithmetic: \<^verbatim>\<open>mul_ext\<close> and \<^verbatim>\<open>mul_alpha_sz_max\<close>\<close>

text \<open>
  Modelled from the spec: \<^verbatim>\<open>mul_ext\<close> is declared in \<^verbatim>\<open>utilities-mod.h\<close> and its body
  is not part of the sources at hand. The specification's contract is that
  \<^verbatim>\<open>mul_ext(a, b, *high, *low)\<close> produces the full double-width product split into two
  words; the header says it copies the high and the low bits of the product into \<open>h\<close> and
  \<open>l\<close>. The pair returned is \<open>(h, l)\<close>.
\<close>

definition mul_ext :: "'a::len word \<Rightarrow> 'a word \<Rightarrow> 'a word \<times> 'a word" where
  "mul_ext a b =
     (of_nat ((unat a * unat b) div 2 ^ LENGTH('a)),
      of_nat ((unat a * unat b) mod 2 ^ LENGTH('a)))"

text \<open>
  \<^verbatim>\<open>mul_alpha_sz_max\<close>. The shifts are those of the source; \<^verbatim>\<open>C_FULL_BIT - log_alpha_d\<close> is
  a \<^verbatim>\<open>size_t\<close> subtraction. (For \<^verbatim>\<open>log_alpha_d = 0\<close> the source shifts \<open>h = 0\<close> by the full
  width, which leaves \<open>0\<close> here.)
\<close>

definition mul_alpha_sz_max :: "'a::len word \<Rightarrow> 'a word \<Rightarrow> 'a word \<Rightarrow> 'a word" where
  "mul_alpha_sz_max n a_n log_a_d =
     (case mul_ext n a_n of (h, l) \<Rightarrow>
        if drop_bit (unat log_a_d) h \<noteq> 0 then C_SIZE_MAX
        else drop_bit (unat log_a_d) l
             + push_bit (unat (of_nat (C_FULL_BIT TYPE('a)) - log_a_d)) h)"

section \<open>The table and its memory\<close>

text \<open>
  The struct \<^verbatim>\<open>ht_divchn_t\<close>, with the fields \<^verbatim>\<open>ht-divchn.c\<close> reads and writes.
  The bucket array \<^verbatim>\<open>key_elts\<close> is the list of its head pointers. The three callbacks are
  optional (\<^verbatim>\<open>NULL\<close> is \<open>None\<close>): \<^verbatim>\<open>cmp_key\<close> compares two key blocks and returns zero
  for equal keys, \<^verbatim>\<open>rdc_key\<close> reduces a key block of a given size to a word, and
  \<^verbatim>\<open>free_elt\<close> is run on an element block and leaves a block of the same size.
\<close>

record (overloaded) 'a ht_divchn =
  key_size :: "'a word"
  elt_size :: "'a word"
  elt_alignment :: "'a word"
  group_ix :: "'a word"
  count_ix :: "'a word"
  count :: "'a word"
  max_num_elts :: "'a word"
  num_elts :: "'a word"
  alpha_n :: "'a word"
  log_alpha_d :: "'a word"
  key_elts :: "'a word list"
  cmp_key :: "(byte list \<Rightarrow> byte list \<Rightarrow> int) option"
  rdc_key :: "(byte list \<Rightarrow> 'a word \<Rightarrow> 'a word) option"
  free_elt :: "(byte list \<Rightarrow> byte list) option"

subsection \<open>Blocks of bytes\<close>

text \<open>
  \<^verbatim>\<open>memcpy(dst, src, n)\<close> on blocks held as byte lists: the first \<open>n\<close> bytes of the
  destination become the first \<open>n\<close> bytes of the source.
\<close>

definition memcpy :: "byte list \<Rightarrow> byte list \<Rightarrow> nat \<Rightarrow> byte list" where
  "memcpy dst src n = take n src @ drop n dst"

subsection \<open>\<^verbatim>\<open>convert_std_key\<close> and \<^verbatim>\<open>hash\<close>\<close>

text \<open>
  The inner loop \<^verbatim>\<open>for (i = 0; i < n; i++) std_key += (size_t)buf[i] << (i * C_BYTE_BIT)\<close>,
  which the source runs once on the leading \<^verbatim>\<open>rem_size\<close> bytes and once on every
  following block of \<^verbatim>\<open>sizeof(size_t)\<close> bytes.
\<close>

definition add_buf :: "'a::len word \<Rightarrow> byte list \<Rightarrow> nat \<Rightarrow> 'a word" where
  "add_buf std_key buf n =
     fold (\<lambda>i s. s + push_bit (i * C_BYTE_BIT) (ucast (buf ! i))) [0..<n] std_key"

definition convert_std_key :: "'a::len ht_divchn \<Rightarrow> byte list \<Rightarrow> 'a word" where
  "convert_std_key ht k =
     (case rdc_key ht of
        Some rdc \<Rightarrow> rdc k (key_size ht)
      | None \<Rightarrow>
          (let buf_size = sizeof_size_t TYPE('a);
               sz_count = unat (key_size ht) div buf_size;
               rem_size = unat (key_size ht) - sz_count * buf_size;
               buf = memcpy (replicate buf_size 0) k rem_size;
               std_key = add_buf 0 buf rem_size
           in fold (\<lambda>j s. add_buf s (memcpy buf (drop (rem_size + j * buf_size) k) buf_size)
                                  buf_size)
                [0..<sz_count] std_key))"

definition hash :: "'a::len ht_divchn \<Rightarrow> byte list \<Rightarrow> 'a word" where
  "hash ht k = convert_std_key ht k mod count ht"

text \<open>
  The specification's reading of a key: the block as a little-endian integer.
\<close>

fun little_endian :: "byte list \<Rightarrow> nat" where
  "little_endian [] = 0"
| "little_endian (b # bs) = unat b + 256 * little_endian bs"

text \<open>
  The position, in bytes, at which \<^verbatim>\<open>convert_std_key\<close> adds byte \<open>i\<close> of a key, for a
  word of \<open>B\<close> bytes and a leading block of \<open>r\<close> bytes.
\<close>

definition byte_pos :: "nat \<Rightarrow> nat \<Rightarrow> nat \<Rightarrow> nat" where
  "byte_pos B r i = (if i < r then i else (i - r) mod B)"

text \<open>A table on a 64-bit host, with the first modulus and no callbacks.\<close>

definition ht_example :: "64 word \<Rightarrow> 64 ht_divchn" where
  "ht_example ks =
     \<lparr>key_size = ks, elt_size = 8, elt_alignment = 1, group_ix = 0, count_ix = 0,
      count = 1543, max_num_elts = 578, num_elts = 0, alpha_n = 3, log_alpha_d = 3,
      key_elts = replicate 1543 0, cmp_key = None, rdc_key = None, free_elt = None\<rparr>"

subsection \<open>The ladder of primes\<close>

text \<open>
  The positions of the primes in \<^verbatim>\<open>C_PRIME_PARTS\<close>: group \<open>g\<close> holds the parts from
  \<^verbatim>\<open>C_PARTS_ACC_COUNTS[g - 1]\<close> (from \<open>0\<close> for the first group) up to
  \<^verbatim>\<open>C_PARTS_ACC_COUNTS[g]\<close>, \<^verbatim>\<open>C_PARTS_PER_PRIME[g]\<close> parts per prime. A position is
  the pair of arguments \<^verbatim>\<open>build_prime\<close> and \<^verbatim>\<open>is_overflow\<close> are called with.
\<close>

definition group_start :: "nat \<Rightarrow> nat" where
  "group_start g = (if g = 0 then 0 else C_PARTS_ACC_COUNTS ! (g - 1))"

definition ladder :: "(nat \<times> nat) list" where
  "ladder =
     concat (map (\<lambda>g. map (\<lambda>j. (group_start g + j * (C_PARTS_PER_PRIME ! g),
                                 C_PARTS_PER_PRIME ! g))
                           [0..<(C_PARTS_ACC_COUNTS ! g - group_start g)
                                  div (C_PARTS_PER_PRIME ! g)])
                 [0..<length C_PARTS_PER_PRIME])"

text \<open>The number of binary digits of a number, as the loop of \<^verbatim>\<open>is_overflow\<close> counts them.\<close>

fun bitlen :: "nat \<Rightarrow> nat" where
  "bitlen n = (if n = 0 then 0 else Suc (bitlen (n div 2)))"

declare bitlen.simps [simp del]

text \<open>
  What is checked of every row of the table against the prime documented beside it: the
  number of parts, the range of the parts, the value of the prime and its number of bits.
\<close>

definition ladder_row_ok :: "(nat \<times> nat) \<times> nat \<Rightarrow> bool" where
  "ladder_row_ok = (\<lambda>((s, c), p).
       1 \<le> c \<and> c \<le> 4 \<and> s + c \<le> length C_PRIME_PARTS
     \<and> list_all (\<lambda>j. C_PRIME_PARTS ! (s + j) < 2 ^ 16) [0..<c]
     \<and> p = sum_list (map (\<lambda>j. C_PRIME_PARTS ! (s + j) * 2 ^ (j * 16)) [0..<c])
     \<and> p < 2 ^ (bitlen (C_PRIME_PARTS ! (s + (c - 1))) + (c - 1) * 16)
     \<and> 2 ^ (bitlen (C_PRIME_PARTS ! (s + (c - 1))) + (c - 1) * 16) \<le> 2 * p)"

section \<open>The chain: \<^verbatim>\<open>dll.c\<close>\<close>

text \<open>
  The nodes live in a store with one map per field of \<^verbatim>\<open>dll_node_t\<close>: the key block and
  the element block of a node, and its two links. \<open>live\<close> is the set of the addresses
  of the allocated nodes; dereferencing any other address, \<^verbatim>\<open>NULL\<close> included, is
  undefined behaviour, for which the operations return \<open>None\<close>. \<open>freed\<close> records the
  element blocks the destructor \<^verbatim>\<open>free_elt\<close> has been run on, in order.
\<close>

record (overloaded) 'a mem =
  live :: "'a word set"
  key :: "'a word \<Rightarrow> byte list"
  elt :: "'a word \<Rightarrow> byte list"
  nxt :: "'a word \<Rightarrow> 'a word"
  prev :: "'a word \<Rightarrow> 'a word"
  freed :: "byte list list"

definition valid :: "'a::len mem \<Rightarrow> 'a word \<Rightarrow> bool" where
  "valid m p \<longleftrightarrow> p \<noteq> 0 \<and> p \<in> live m"

text \<open>
  The allocator is a parameter of the operations that allocate: \<^verbatim>\<open>malloc_perror\<close> and
  \<^verbatim>\<open>add_sz_perror\<close> are not among the sources. Given the addresses in use and the number
  of key and element bytes asked for, it returns the address of a new node, or \<open>None\<close>
  when the program exits for want of memory. \<open>malloc_ok\<close> is what is assumed of it: a new
  node is not \<^verbatim>\<open>NULL\<close> and not in use.
\<close>

type_synonym 'a allocator = "'a word set \<Rightarrow> nat \<Rightarrow> 'a word option"

definition malloc_ok :: "'a::len allocator \<Rightarrow> bool" where
  "malloc_ok malloc \<longleftrightarrow> (\<forall>used n a. malloc used n = Some a \<longrightarrow> a \<noteq> 0 \<and> a \<notin> used)"

definition dll_init :: "'a::len word" where
  "dll_init = 0"

definition dll_prepend_new ::
  "'a::len allocator \<Rightarrow> 'a mem \<Rightarrow> 'a word \<Rightarrow> byte list \<Rightarrow> byte list \<Rightarrow> 'a word \<Rightarrow> 'a word
     \<Rightarrow> ('a mem \<times> 'a word) option" where
  "dll_prepend_new malloc m head k e ks es =
     (case malloc (live m) (unat ks + unat es) of
        None \<Rightarrow> None
      | Some node \<Rightarrow>
          (let m = m\<lparr>live := insert node (live m)\<rparr>;
               m = m\<lparr>key := (key m)(node := memcpy (replicate (unat ks) 0) k (unat ks))\<rparr>;
               m = m\<lparr>elt := (elt m)(node := memcpy (replicate (unat es) 0) e (unat es))\<rparr>
           in if head = 0 then
                (let m = m\<lparr>nxt := (nxt m)(node := node)\<rparr>;
                     m = m\<lparr>prev := (prev m)(node := node)\<rparr>
                 in Some (m, node))
              else if valid m head \<and> valid m (prev m head) then
                (let m = m\<lparr>nxt := (nxt m)(node := head)\<rparr>;
                     m = m\<lparr>prev := (prev m)(node := prev m head)\<rparr>;
                     m = m\<lparr>nxt := (nxt m)(prev m head := node)\<rparr>;
                     m = m\<lparr>prev := (prev m)(head := node)\<rparr>
                 in Some (m, node))
              else None))"

definition dll_prepend :: "'a::len mem \<Rightarrow> 'a word \<Rightarrow> 'a word \<Rightarrow> ('a mem \<times> 'a word) option" where
  "dll_prepend m head node =
     (if \<not> valid m node then None
      else if head = 0 then
        (let m = m\<lparr>nxt := (nxt m)(node := node)\<rparr>;
             m = m\<lparr>prev := (prev m)(node := node)\<rparr>
         in Some (m, node))
      else if valid m head \<and> valid m (prev m head) then
        (let m = m\<lparr>nxt := (nxt m)(node := head)\<rparr>;
             m = m\<lparr>prev := (prev m)(node := prev m head)\<rparr>;
             m = m\<lparr>nxt := (nxt m)(prev m head := node)\<rparr>;
             m = m\<lparr>prev := (prev m)(head := node)\<rparr>
         in Some (m, node))
      else None)"

text \<open>
  The comparison of a node's key with the probe. \<^verbatim>\<open>dll.c\<close> compares with
  \<^verbatim>\<open>memcmp(node->key, key, key_size) == 0\<close>; \<^verbatim>\<open>ht-divchn.c\<close> passes its \<^verbatim>\<open>cmp_key\<close> as
  well.

  Modelled from the spec: the comparator argument of \<^verbatim>\<open>dll_search_key\<close>. The
  \<^verbatim>\<open>dll.c\<close> at hand takes none; the specification's \<^verbatim>\<open>search_key(h, probe, K, cmp)\<close>
  returns the first node whose key region is equal under \<open>cmp\<close>, or under the raw memory
  compare when \<open>cmp\<close> is not supplied.
\<close>

definition memcmp_eq :: "byte list \<Rightarrow> byte list \<Rightarrow> nat \<Rightarrow> bool" where
  "memcmp_eq a b n \<longleftrightarrow> take n a = take n b"

definition key_match ::
  "(byte list \<Rightarrow> byte list \<Rightarrow> int) option \<Rightarrow> 'a::len word \<Rightarrow> byte list \<Rightarrow> byte list \<Rightarrow> bool" where
  "key_match cmp ks node_key k =
     (case cmp of None \<Rightarrow> memcmp_eq node_key k (unat ks) | Some f \<Rightarrow> f node_key k = 0)"

text \<open>
  The loop \<^verbatim>\<open>while (node != *head)\<close> of \<^verbatim>\<open>dll_search_key\<close>. Beside the node found
  (or \<^verbatim>\<open>NULL\<close>) it returns the nodes whose key it has compared, in order. A loop that
  does not come back to the head does not return.
\<close>

partial_function (option) dll_search_loop ::
  "'a::len mem \<Rightarrow> 'a word \<Rightarrow> (byte list \<Rightarrow> bool) \<Rightarrow> 'a word \<Rightarrow> 'a word list
     \<Rightarrow> ('a word \<times> 'a word list) option" where
  "dll_search_loop m head eq node seen =
     (if node = head then Some (0, seen)
      else if \<not> valid m node then None
      else if eq (key m node) then Some (node, seen @ [node])
      else dll_search_loop m head eq (nxt m node) (seen @ [node]))"

declare dll_search_loop.simps [code]

definition dll_search_key_trace ::
  "'a::len mem \<Rightarrow> 'a word \<Rightarrow> byte list option \<Rightarrow> 'a word
     \<Rightarrow> (byte list \<Rightarrow> byte list \<Rightarrow> int) option \<Rightarrow> ('a word \<times> 'a word list) option" where
  "dll_search_key_trace m head ko ks cmp =
     (let node = head in
      case ko of
        None \<Rightarrow> Some (0, [])
      | Some k \<Rightarrow>
          if node = 0 then Some (0, [])
          else if \<not> valid m node then None
          else if key_match cmp ks (key m node) k then Some (node, [node])
          else dll_search_loop m head (\<lambda>nk. key_match cmp ks nk k) (nxt m node) [node])"

definition dll_search_key ::
  "'a::len mem \<Rightarrow> 'a word \<Rightarrow> byte list option \<Rightarrow> 'a word
     \<Rightarrow> (byte list \<Rightarrow> byte list \<Rightarrow> int) option \<Rightarrow> 'a word option" where
  "dll_search_key m head ko ks cmp = map_option fst (dll_search_key_trace m head ko ks cmp)"

definition dll_remove :: "'a::len mem \<Rightarrow> 'a word \<Rightarrow> 'a word \<Rightarrow> ('a mem \<times> 'a word) option" where
  "dll_remove m head node =
     (if head = 0 \<or> node = 0 then Some (m, head)
      else if \<not> valid m node then None
      else if prev m node = node \<and> nxt m node = node then Some (m, 0)
      else if valid m (nxt m node) \<and> valid m (prev m node) then
        (let m = m\<lparr>prev := (prev m)(nxt m node := prev m node)\<rparr>;
             m = m\<lparr>nxt := (nxt m)(prev m node := nxt m node)\<rparr>
         in Some (m, if head = node then nxt m node else head))
      else None)"

text \<open>A call \<^verbatim>\<open>if (free_elt != NULL) free_elt(node->elt)\<close>.\<close>

definition run_free_elt :: "(byte list \<Rightarrow> byte list) option \<Rightarrow> 'a::len mem \<Rightarrow> 'a word \<Rightarrow> 'a mem" where
  "run_free_elt fe m node =
     (case fe of
        None \<Rightarrow> m
      | Some f \<Rightarrow> m\<lparr>elt := (elt m)(node := f (elt m node)), freed := freed m @ [elt m node]\<rparr>)"

definition dll_delete ::
  "'a::len mem \<Rightarrow> 'a word \<Rightarrow> 'a word \<Rightarrow> (byte list \<Rightarrow> byte list) option
     \<Rightarrow> ('a mem \<times> 'a word) option" where
  "dll_delete m head node fe =
     (if head = 0 \<or> node = 0 then Some (m, head)
      else if \<not> valid m node then None
      else if prev m node = node \<and> nxt m node = node then
        (let m = run_free_elt fe m node;
             m = m\<lparr>live := live m - {node}\<rparr>
         in Some (m, 0))
      else
        (let m = run_free_elt fe m node
         in if valid m (nxt m node) \<and> valid m (prev m node) then
              (let m = m\<lparr>prev := (prev m)(nxt m node := prev m node)\<rparr>;
                   m = m\<lparr>nxt := (nxt m)(prev m node := nxt m node)\<rparr>;
                   head' = (if head = node then nxt m node else head);
                   m = m\<lparr>live := live m - {node}\<rparr>
               in Some (m, head'))
            else None))"


section \<open>The table operations of \<^verbatim>\<open>ht-divchn.c\<close>\<close>

text \<open>
  \<^verbatim>\<open>incr_count\<close> returns the flag (1 is \<open>True\<close>) and the updated table; a read
  outside one of the constant tables leaves no result.
\<close>

definition incr_count :: "'a::len ht_divchn \<Rightarrow> (bool \<times> 'a ht_divchn) option" where
  "incr_count ht =
     (case tab C_PARTS_PER_PRIME (group_ix ht) of
        None \<Rightarrow> None
      | Some ppp \<Rightarrow>
          (let ht = ht\<lparr>count_ix := count_ix ht + ppp\<rparr> in
           case tab C_PARTS_ACC_COUNTS (group_ix ht) of
             None \<Rightarrow> None
           | Some acc \<Rightarrow>
               (let ht = (if count_ix ht = acc then ht\<lparr>group_ix := group_ix ht + 1\<rparr> else ht) in
                if count_ix ht = of_nat C_PRIME_PARTS_COUNT then Some (False, ht)
                else
                  (case tab C_PARTS_PER_PRIME (group_ix ht) of
                     None \<Rightarrow> None
                   | Some ppp \<Rightarrow>
                       (case is_overflow (count_ix ht) ppp of
                          None \<Rightarrow> None
                        | Some True \<Rightarrow> Some (False, ht\<lparr>count_ix := C_SIZE_MAX\<rparr>)
                        | Some False \<Rightarrow>
                            (case build_prime (count_ix ht) ppp of
                               None \<Rightarrow> None
                             | Some c \<Rightarrow>
                                 (let ht = ht\<lparr>count := c\<rparr>;
                                      ht = ht\<lparr>max_num_elts :=
                                              mul_alpha_sz_max (count ht) (alpha_n ht)
                                                (log_alpha_d ht)\<rparr>
                                  in Some (True, ht))))))))"

text \<open>
  The loop \<^verbatim>\<open>while (n > ht->max_num_elts && incr_count(ht));\<close>, which the source runs
  with \<open>n = min_num\<close> in \<^verbatim>\<open>ht_divchn_init\<close> and with \<open>n = ht->num_elts\<close> in
  \<^verbatim>\<open>ht_grow\<close>.
\<close>

partial_function (option) incr_count_while ::
  "'a::len word \<Rightarrow> 'a ht_divchn \<Rightarrow> 'a ht_divchn option" where
  "incr_count_while n ht =
     (if n > max_num_elts ht then
        (case incr_count ht of
           None \<Rightarrow> None
         | Some (again, ht) \<Rightarrow> if again then incr_count_while n ht else Some ht)
      else Some ht)"

declare incr_count_while.simps [code]

text \<open>
  \<^verbatim>\<open>ht_divchn_init\<close>. The first argument is the preallocated block \<^verbatim>\<open>ht\<close> points to,
  with whatever it holds; the fields are written in the order of the source. The
  allocation of the bucket array is not modelled as a step that can fail.
\<close>

definition ht_divchn_init ::
  "'a::len ht_divchn \<Rightarrow> 'a word \<Rightarrow> 'a word \<Rightarrow> 'a word \<Rightarrow> 'a word \<Rightarrow> 'a word
     \<Rightarrow> (byte list \<Rightarrow> byte list \<Rightarrow> int) option
     \<Rightarrow> (byte list \<Rightarrow> 'a word \<Rightarrow> 'a word) option
     \<Rightarrow> (byte list \<Rightarrow> byte list) option
     \<Rightarrow> 'a ht_divchn option" where
  "ht_divchn_init ht ks es min_num a_n log_a_d cmp rdc fe =
     (let ht = ht\<lparr>key_size := ks\<rparr>;
          ht = ht\<lparr>elt_size := es\<rparr>;
          ht = ht\<lparr>elt_alignment := 1\<rparr>;
          ht = ht\<lparr>group_ix := 0\<rparr>;
          ht = ht\<lparr>count_ix := 0\<rparr>
      in case tab C_PARTS_PER_PRIME (group_ix ht) of
           None \<Rightarrow> None
         | Some ppp \<Rightarrow>
             (case build_prime (count_ix ht) ppp of
                None \<Rightarrow> None
              | Some c \<Rightarrow>
                  (let ht = ht\<lparr>count := c\<rparr>;
                       ht = ht\<lparr>max_num_elts := mul_alpha_sz_max (count ht) a_n log_a_d\<rparr>
                   in case incr_count_while min_num ht of
                        None \<Rightarrow> None
                      | Some ht \<Rightarrow>
                          (let ht = ht\<lparr>num_elts := 0\<rparr>;
                               ht = ht\<lparr>alpha_n := a_n\<rparr>;
                               ht = ht\<lparr>log_alpha_d := log_a_d\<rparr>;
                               ht = ht\<lparr>key_elts := replicate (unat (count ht)) dll_init\<rparr>;
                               ht = ht\<lparr>cmp_key := cmp\<rparr>;
                               ht = ht\<lparr>rdc_key := rdc\<rparr>;
                               ht = ht\<lparr>free_elt := fe\<rparr>
                           in Some ht))))"

text \<open>
  The inner loop of \<^verbatim>\<open>ht_grow\<close> on one old bucket, \<^verbatim>\<open>while (*head != NULL)\<close>: the
  head node is unlinked and prepended to its bucket of the new array.
\<close>

partial_function (option) rehash_chain ::
  "'a::len ht_divchn \<Rightarrow> 'a mem \<Rightarrow> 'a word \<Rightarrow> ('a ht_divchn \<times> 'a mem) option" where
  "rehash_chain ht m head =
     (if head = 0 then Some (ht, m)
      else
        (let node = head in
         case dll_remove m head node of
           None \<Rightarrow> None
         | Some (m, head) \<Rightarrow>
             (let ix = unat (hash ht (key m node)) in
              if ix < length (key_elts ht) then
                (case dll_prepend m (key_elts ht ! ix) node of
                   None \<Rightarrow> None
                 | Some (m, h) \<Rightarrow>
                     rehash_chain (ht\<lparr>key_elts := (key_elts ht)[ix := h]\<rparr>) m head)
              else None)))"

declare rehash_chain.simps [code]

text \<open>The outer loop \<^verbatim>\<open>for (i = 0; i < prev_count; i++)\<close> over the old buckets.\<close>

fun rehash ::
  "'a::len ht_divchn \<Rightarrow> 'a mem \<Rightarrow> 'a word list \<Rightarrow> ('a ht_divchn \<times> 'a mem) option" where
  "rehash ht m [] = Some (ht, m)"
| "rehash ht m (head # prev_key_elts) =
     (case rehash_chain ht m head of
        None \<Rightarrow> None
      | Some (ht, m) \<Rightarrow> rehash ht m prev_key_elts)"

definition ht_grow :: "'a::len ht_divchn \<Rightarrow> 'a mem \<Rightarrow> ('a ht_divchn \<times> 'a mem) option" where
  "ht_grow ht m =
     (let prev_count = count ht;
          prev_key_elts = key_elts ht
      in case incr_count_while (num_elts ht) ht of
           None \<Rightarrow> None
         | Some ht \<Rightarrow>
             if prev_count = count ht then Some (ht, m)
             else
               (let ht = ht\<lparr>key_elts := replicate (unat (count ht)) dll_init\<rparr>
                in rehash ht m (take (unat prev_count) prev_key_elts)))"

definition ht_divchn_insert ::
  "'a::len allocator \<Rightarrow> 'a ht_divchn \<Rightarrow> 'a mem \<Rightarrow> byte list \<Rightarrow> byte list
     \<Rightarrow> ('a ht_divchn \<times> 'a mem) option" where
  "ht_divchn_insert malloc ht m k e =
     (let ix = unat (hash ht k) in
      if ix < length (key_elts ht) then
        (let head = key_elts ht ! ix in
         case dll_search_key m head (Some k) (key_size ht) (cmp_key ht) of
           None \<Rightarrow> None
         | Some node \<Rightarrow>
             (case (if node = 0 then
                      (case dll_prepend_new malloc m head k e (key_size ht) (elt_size ht) of
                         None \<Rightarrow> None
                       | Some (m, head) \<Rightarrow>
                           (let ht = ht\<lparr>key_elts := (key_elts ht)[ix := head]\<rparr>;
                                ht = ht\<lparr>num_elts := num_elts ht + 1\<rparr>
                            in Some (ht, m)))
                    else
                      (let m = run_free_elt (free_elt ht) m node;
                           m = m\<lparr>elt := (elt m)(node := memcpy (elt m node) e (unat (elt_size ht)))\<rparr>
                       in Some (ht, m))) of
                None \<Rightarrow> None
              | Some (ht, m) \<Rightarrow>
                  if num_elts ht > max_num_elts ht
                     \<and> count_ix ht \<noteq> C_SIZE_MAX
                     \<and> count_ix ht \<noteq> of_nat C_PRIME_PARTS_COUNT
                  then ht_grow ht m
                  else Some (ht, m)))
      else None)"

text \<open>
  \<^verbatim>\<open>ht_divchn_search\<close> returns a pointer into the node found: the result is the address
  of that node, whose element block is read with \<open>elt\<close>, or \<open>0\<close> for \<^verbatim>\<open>NULL\<close>.
\<close>

definition ht_divchn_search :: "'a::len ht_divchn \<Rightarrow> 'a mem \<Rightarrow> byte list \<Rightarrow> 'a word option" where
  "ht_divchn_search ht m k =
     (let ix = unat (hash ht k) in
      if ix < length (key_elts ht) then
        dll_search_key m (key_elts ht ! ix) (Some k) (key_size ht) (cmp_key ht)
      else None)"

text \<open>
  \<^verbatim>\<open>ht_divchn_remove\<close> takes the block \<^verbatim>\<open>elt\<close> points to and returns it with the table
  and the store.
\<close>

definition ht_divchn_remove ::
  "'a::len ht_divchn \<Rightarrow> 'a mem \<Rightarrow> byte list \<Rightarrow> byte list
     \<Rightarrow> ('a ht_divchn \<times> 'a mem \<times> byte list) option" where
  "ht_divchn_remove ht m k out =
     (let ix = unat (hash ht k) in
      if ix < length (key_elts ht) then
        (let head = key_elts ht ! ix in
         case dll_search_key m head (Some k) (key_size ht) (cmp_key ht) of
           None \<Rightarrow> None
         | Some node \<Rightarrow>
             if node \<noteq> 0 then
               (let out = memcpy out (elt m node) (unat (elt_size ht)) in
                case dll_delete m head node None of
                  None \<Rightarrow> None
                | Some (m, head) \<Rightarrow>
                    (let ht = ht\<lparr>key_elts := (key_elts ht)[ix := head]\<rparr>;
                         ht = ht\<lparr>num_elts := num_elts ht - 1\<rparr>
                     in Some (ht, m, out)))
             else Some (ht, m, out))
      else None)"

definition ht_divchn_delete ::
  "'a::len ht_divchn \<Rightarrow> 'a mem \<Rightarrow> byte list \<Rightarrow> ('a ht_divchn \<times> 'a mem) option" where
  "ht_divchn_delete ht m k =
     (let ix = unat (hash ht k) in
      if ix < length (key_elts ht) then
        (let head = key_elts ht ! ix in
         case dll_search_key m head (Some k) (key_size ht) (cmp_key ht) of
           None \<Rightarrow> None
         | Some node \<Rightarrow>
             if node \<noteq> 0 then
               (case dll_delete m head node (free_elt ht) of
                  None \<Rightarrow> None
                | Some (m, head) \<Rightarrow>
                    (let ht = ht\<lparr>key_elts := (key_elts ht)[ix := head]\<rparr>;
                         ht = ht\<lparr>num_elts := num_elts ht - 1\<rparr>
                     in Some (ht, m)))
             else Some (ht, m))
      else None)"

section \<open>Well-formed chains\<close>

text \<open>
  A chain is a ring: \<open>cyc m ns\<close> says that the distinct allocated nodes \<open>ns\<close> are linked
  in this order by \<open>nxt\<close>, the last one back to the first, and by \<open>prev\<close> in the
  opposite direction. \<open>ring m head ns\<close> says further that the head pointer points to the
  first of them, or is \<^verbatim>\<open>NULL\<close> for the empty chain. \<open>path f x as y\<close> follows \<open>f\<close>
  from \<open>x\<close> through the nodes \<open>as\<close> and arrives at \<open>y\<close>.
\<close>

fun path :: "('a \<Rightarrow> 'a) \<Rightarrow> 'a \<Rightarrow> 'a list \<Rightarrow> 'a \<Rightarrow> bool" where
  "path f x [] y \<longleftrightarrow> x = y"
| "path f x (a # as) y \<longleftrightarrow> x = a \<and> path f (f a) as y"

definition cyc :: "'a::len mem \<Rightarrow> 'a word list \<Rightarrow> bool" where
  "cyc m ns \<longleftrightarrow>
     distinct ns \<and> 0 \<notin> set ns \<and> set ns \<subseteq> live m
     \<and> map (nxt m) ns = rotate1 ns \<and> map (prev m) (rotate1 ns) = ns"

definition ring :: "'a::len mem \<Rightarrow> 'a word \<Rightarrow> 'a word list \<Rightarrow> bool" where
  "ring m head ns \<longleftrightarrow> cyc m ns \<and> head = (case ns of [] \<Rightarrow> 0 | a # _ \<Rightarrow> a)"

text \<open>
  The first node of a list that satisfies a test (\<^verbatim>\<open>NULL\<close> when there is none), and the
  nodes a forward scan for it looks at.
\<close>

definition first_match :: "('a \<Rightarrow> bool) \<Rightarrow> 'a::zero list \<Rightarrow> 'a" where
  "first_match P ns = (case find P ns of Some a \<Rightarrow> a | None \<Rightarrow> 0)"

definition compared :: "('a \<Rightarrow> bool) \<Rightarrow> 'a list \<Rightarrow> 'a list" where
  "compared P ns = takeWhile (\<lambda>a. \<not> P a) ns @ (case find P ns of Some a \<Rightarrow> [a] | None \<Rightarrow> [])"

text \<open>A store with a chain of two nodes, at the addresses 1 and 2.\<close>

definition mem_example :: "64 mem" where
  "mem_example =
     \<lparr>live = {1, 2},
      key = (\<lambda>_. [])(1 := [1, 0, 0, 0, 0, 0, 0, 0], 2 := [2, 0, 0, 0, 0, 0, 0, 0]),
      elt = (\<lambda>_. [])(1 := [10, 0, 0, 0, 0, 0, 0, 0], 2 := [20, 0, 0, 0, 0, 0, 0, 0]),
      nxt = (\<lambda>_. 0)(1 := 2, 2 := 1),
      prev = (\<lambda>_. 0)(1 := 2, 2 := 1),
      freed = []\<rparr>"

section \<open>The state of a table\<close>

text \<open>
  Where a table stands on the ladder. \<open>saturated\<close> is the state in which \<^verbatim>\<open>incr_count\<close>
  has found no further prime: \<^verbatim>\<open>count_ix\<close> is \<^verbatim>\<open>C_SIZE_MAX\<close> (the next prime does not
  fit the word) or \<^verbatim>\<open>C_PRIME_PARTS_COUNT\<close> (the ladder is exhausted), the two values
  \<^verbatim>\<open>ht_divchn_insert\<close> tests before it grows the table. \<open>ladder_at ht i\<close> says that the
  table is at position \<open>i\<close> of the ladder, with the prime of that position as its
  modulus.
\<close>

definition saturated :: "'a::len ht_divchn \<Rightarrow> bool" where
  "saturated ht \<longleftrightarrow> count_ix ht = C_SIZE_MAX \<or> count_ix ht = of_nat C_PRIME_PARTS_COUNT"

definition ladder_at :: "'a::len ht_divchn \<Rightarrow> nat \<Rightarrow> bool" where
  "ladder_at ht i \<longleftrightarrow>
     i < length ladder \<and> unat (count_ix ht) = fst (ladder ! i)
     \<and> Suc (unat (group_ix ht)) = snd (ladder ! i)
     \<and> count ht = of_nat (C_PRIMES ! i) \<and> C_PRIMES ! i < 2 ^ LENGTH('a)"

text \<open>
  What the two small tables \<^verbatim>\<open>C_PARTS_PER_PRIME\<close> and \<^verbatim>\<open>C_PARTS_ACC_COUNTS\<close> have to
  say at position \<open>i\<close> for \<^verbatim>\<open>incr_count\<close> to step to position \<open>i + 1\<close>, and the number
  of bits \<^verbatim>\<open>is_overflow\<close> computes for the prime at position \<open>i\<close>.
\<close>

definition ladder_step_ok :: "nat \<Rightarrow> bool" where
  "ladder_step_ok i =
     (case ladder ! i of (s, c) \<Rightarrow>
        C_PARTS_PER_PRIME ! (c - 1) = c
      \<and> (if Suc i < length ladder then
            s + c \<noteq> C_PRIME_PARTS_COUNT \<and> fst (ladder ! Suc i) = s + c
            \<and> snd (ladder ! Suc i) = (if s + c = C_PARTS_ACC_COUNTS ! (c - 1) then c + 1 else c)
          else s + c = C_PRIME_PARTS_COUNT))"

definition ladder_bits :: "nat \<Rightarrow> nat" where
  "ladder_bits i = (case ladder ! i of (s, c) \<Rightarrow>
     bitlen (C_PRIME_PARTS ! (s + (c - 1))) + (c - 1) * 16)"

text \<open>
  The fields \<^verbatim>\<open>incr_count\<close> does not write, and the fields that are set once by
  \<^verbatim>\<open>ht_divchn_init\<close>.
\<close>

definition same_rest :: "'a::len ht_divchn \<Rightarrow> 'a ht_divchn \<Rightarrow> bool" where
  "same_rest ht ht' \<longleftrightarrow>
     key_size ht' = key_size ht \<and> elt_size ht' = elt_size ht
     \<and> elt_alignment ht' = elt_alignment ht \<and> num_elts ht' = num_elts ht
     \<and> alpha_n ht' = alpha_n ht \<and> log_alpha_d ht' = log_alpha_d ht
     \<and> key_elts ht' = key_elts ht \<and> cmp_key ht' = cmp_key ht
     \<and> rdc_key ht' = rdc_key ht \<and> free_elt ht' = free_elt ht"

definition same_cfg :: "'a::len ht_divchn \<Rightarrow> 'a ht_divchn \<Rightarrow> bool" where
  "same_cfg ht ht' \<longleftrightarrow>
     key_size ht' = key_size ht \<and> elt_size ht' = elt_size ht
     \<and> alpha_n ht' = alpha_n ht \<and> log_alpha_d ht' = log_alpha_d ht
     \<and> cmp_key ht' = cmp_key ht \<and> rdc_key ht' = rdc_key ht \<and> free_elt ht' = free_elt ht"

text \<open>
  The chains of a table. \<open>chains m hs cs\<close> says that the head pointers \<open>hs\<close> are the heads
  of the rings \<open>cs\<close>, one list of nodes for every bucket, and that no node is in two
  places. \<open>hashed ht m cs\<close> says that every node of the chain of bucket \<open>b\<close> has a key
  that \<^verbatim>\<open>hash\<close> sends to \<open>b\<close>.
\<close>

definition chains :: "'a::len mem \<Rightarrow> 'a word list \<Rightarrow> 'a word list list \<Rightarrow> bool" where
  "chains m hs cs \<longleftrightarrow> list_all2 (ring m) hs cs \<and> distinct (concat cs)"

definition hashed :: "'a::len ht_divchn \<Rightarrow> 'a mem \<Rightarrow> 'a word list list \<Rightarrow> bool" where
  "hashed ht m cs \<longleftrightarrow> (\<forall>b<length cs. \<forall>a\<in>set (cs ! b). unat (hash ht (key m a)) = b)"

text \<open>
  The invariant of a table with the chains \<open>cs\<close>: there are \<^verbatim>\<open>count\<close> buckets, each the
  head of its chain; every node is in the bucket of its key; \<^verbatim>\<open>num_elts\<close> counts the
  nodes; and the table is at a position of the ladder or saturated. \<open>ht_inv\<close> adds the
  bound on the load that holds between two operations.
\<close>

definition ht_inv0 :: "'a::len ht_divchn \<Rightarrow> 'a mem \<Rightarrow> 'a word list list \<Rightarrow> bool" where
  "ht_inv0 ht m cs \<longleftrightarrow>
     count ht \<noteq> 0 \<and> length cs = unat (count ht) \<and> chains m (key_elts ht) cs
     \<and> (\<forall>b<length cs. \<forall>a\<in>set (cs ! b). unat (hash ht (key m a)) = b)
     \<and> unat (num_elts ht) = length (concat cs)
     \<and> (saturated ht \<or> (\<exists>i. ladder_at ht i))"

definition ht_inv :: "'a::len ht_divchn \<Rightarrow> 'a mem \<Rightarrow> 'a word list list \<Rightarrow> bool" where
  "ht_inv ht m cs \<longleftrightarrow> ht_inv0 ht m cs \<and> (max_num_elts ht < num_elts ht \<longrightarrow> saturated ht)"

text \<open>The test a search for the key \<open>k\<close> applies to a node.\<close>

abbreviation (input) probe :: "'a::len ht_divchn \<Rightarrow> 'a mem \<Rightarrow> byte list \<Rightarrow> 'a word \<Rightarrow> bool" where
  "probe ht m k \<equiv> (\<lambda>a. key_match (cmp_key ht) (key_size ht) (key m a) k)"

text \<open>
  The store after the branch of \<^verbatim>\<open>ht_divchn_insert\<close> for a key that is present at the node
  \<open>n\<close>: \<^verbatim>\<open>free_elt\<close> is run on the element block of the node, then \<^verbatim>\<open>memcpy\<close> writes the
  new element over it.
\<close>

definition store_elt :: "'a::len ht_divchn \<Rightarrow> 'a mem \<Rightarrow> 'a word \<Rightarrow> byte list \<Rightarrow> 'a mem" where
  "store_elt ht m n e =
     (let m = run_free_elt (free_elt ht) m n
      in m\<lparr>elt := (elt m)(n := memcpy (elt m n) e (unat (elt_size ht)))\<rparr>)"

text \<open>
  The states a table can be in after a completed operation: \<^verbatim>\<open>ht_divchn_init\<close> on any
  block and with any arguments, followed by any number of calls of \<^verbatim>\<open>ht_divchn_insert\<close>
  (with a key block of \<^verbatim>\<open>key_size\<close> bytes), \<^verbatim>\<open>ht_divchn_remove\<close> and
  \<^verbatim>\<open>ht_divchn_delete\<close> that return. The store at initialisation is arbitrary.
\<close>

inductive reachable :: "'a::len allocator \<Rightarrow> 'a ht_divchn \<Rightarrow> 'a mem \<Rightarrow> bool"
  for malloc :: "'a allocator" where
  init: "ht_divchn_init blk ks es min_num a_n log_a_d cmp rdc fe = Some ht \<Longrightarrow> reachable malloc ht m"
| insert: "reachable malloc ht m \<Longrightarrow> length k = unat (key_size ht)
    \<Longrightarrow> ht_divchn_insert malloc ht m k e = Some (ht', m') \<Longrightarrow> reachable malloc ht' m'"
| remove: "reachable malloc ht m \<Longrightarrow> ht_divchn_remove ht m k out = Some (ht', m', out')
    \<Longrightarrow> reachable malloc ht' m'"
| delete: "reachable malloc ht m \<Longrightarrow> ht_divchn_delete ht m k = Some (ht', m')
    \<Longrightarrow> reachable malloc ht' m'"

text \<open>
  A key that is not in the table: the scan of \<^verbatim>\<open>dll_search_key\<close> finds no node for it in
  any of the chains.
\<close>

definition absent :: "'a::len ht_divchn \<Rightarrow> 'a mem \<Rightarrow> byte list \<Rightarrow> bool" where
  "absent ht m k \<longleftrightarrow>
     (\<forall>b<length (key_elts ht).
        dll_search_key m (key_elts ht ! b) (Some k) (key_size ht) (cmp_key ht) = Some 0)"

text \<open>
  A small run on a 64-bit host. The allocator hands out the addresses 1 and 2. \<open>ht_small fe\<close>
  is the table \<^verbatim>\<open>ht_divchn_init(ht, 8, 8, 0, 1, 11, NULL, NULL, fe)\<close> leaves: with the load
  factor bound 1/2048 the first modulus 1543 allows no key at all, so that the first
  insertion grows the table. \<open>ht_grown fe\<close> and \<open>mem_one\<close> are the table and the store
  after the key 1 has been inserted with the element 7.
\<close>

definition malloc_example :: "64 allocator" where
  "malloc_example used n = (if 1 \<notin> used then Some 1 else if 2 \<notin> used then Some 2 else None)"

definition mem_empty :: "64 mem" where
  "mem_empty = \<lparr>live = {}, key = (\<lambda>_. []), elt = (\<lambda>_. []), nxt = (\<lambda>_. 0), prev = (\<lambda>_. 0),
                 freed = []\<rparr>"

definition ht_small :: "(byte list \<Rightarrow> byte list) option \<Rightarrow> 64 ht_divchn" where
  "ht_small fe = (ht_example 8)\<lparr>max_num_elts := 0, alpha_n := 1, log_alpha_d := 11, free_elt := fe\<rparr>"

definition ht_grown :: "(byte list \<Rightarrow> byte list) option \<Rightarrow> 64 ht_divchn" where
  "ht_grown fe = (ht_small fe)\<lparr>count_ix := 1, count := 3119, max_num_elts := 1, num_elts := 1,
                        key_elts := (replicate 3119 0)[1 := 1]\<rparr>"

definition mem_one :: "64 mem" where
  "mem_one = \<lparr>live = {1}, key = (\<lambda>_. [])(1 := [1, 0, 0, 0, 0, 0, 0, 0]),
               elt = (\<lambda>_. [])(1 := [7, 0, 0, 0, 0, 0, 0, 0]),
               nxt = (\<lambda>_. 0)(1 := 1), prev = (\<lambda>_. 0)(1 := 1), freed = []\<rparr>"

text \<open>
  A second run on the same host, on a block that was in use before: its fields
  \<^verbatim>\<open>alpha_n\<close> and \<^verbatim>\<open>log_alpha_d\<close> hold 2 and 1. \<open>ht_stale\<close> is the table
  \<^verbatim>\<open>ht_divchn_init(ht, 8, 8, 1, 1, 11, NULL, NULL, NULL)\<close> leaves in that block, and
  \<open>mem_two\<close> the store after the keys 1 and 2 have been inserted with the elements 7
  and 9.
\<close>

definition ht_stale :: "64 ht_divchn" where
  "ht_stale = (ht_example 8)\<lparr>count_ix := 1, count := 3119, max_num_elts := 3119, alpha_n := 1,
                 log_alpha_d := 11, key_elts := replicate 3119 0\<rparr>"

definition mem_two :: "64 mem" where
  "mem_two = \<lparr>live = {1, 2},
               key = (\<lambda>_. [])(1 := [1, 0, 0, 0, 0, 0, 0, 0], 2 := [2, 0, 0, 0, 0, 0, 0, 0]),
               elt = (\<lambda>_. [])(1 := [7, 0, 0, 0, 0, 0, 0, 0], 2 := [9, 0, 0, 0, 0, 0, 0, 0]),
               nxt = (\<lambda>_. 0)(1 := 1, 2 := 2), prev = (\<lambda>_. 0)(1 := 1, 2 := 2), freed = []\<rparr>"


section \<open>The load-factor bound\<close>

lemma C_FULL_BIT_eq: "size_t_ok TYPE('a::len) \<Longrightarrow> C_FULL_BIT TYPE('a) = LENGTH('a)"
  by (auto simp: size_t_ok_def C_FULL_BIT_def sizeof_size_t_def)

lemma unat_mul_ext_fst:
  "unat (fst (mul_ext (n :: 'a::len word) a)) = unat n * unat a div 2 ^ LENGTH('a)"
proof -
  have "unat n * unat a < 2 ^ LENGTH('a) * 2 ^ LENGTH('a)"
    by (intro mult_strict_mono) (simp_all add: unsigned_less)
  then have "unat n * unat a div 2 ^ LENGTH('a) < 2 ^ LENGTH('a)"
    by (simp add: less_mult_imp_div_less)
  then show ?thesis
    by (simp add: mul_ext_def unat_of_nat)
qed

lemma unat_mul_ext_snd:
  "unat (snd (mul_ext (n :: 'a::len word) a)) = unat n * unat a mod 2 ^ LENGTH('a)"
  by (simp add: mul_ext_def unat_of_nat)

lemma shift_split:
  fixes P W d :: nat
  assumes "d \<le> W"
  shows "P div 2 ^ d = (P mod 2 ^ W) div 2 ^ d + (P div 2 ^ W) * 2 ^ (W - d)"
proof -
  define q r where "q = P div 2 ^ W" and "r = P mod 2 ^ W"
  have W: "(2::nat) ^ W = 2 ^ (W - d) * 2 ^ d"
    using assms by (simp flip: power_add)
  have "P = q * 2 ^ W + r"
    unfolding q_def r_def by (rule div_mult_mod_eq[symmetric])
  also have "q * 2 ^ W = q * 2 ^ (W - d) * 2 ^ d"
    using W by (simp add: mult.assoc)
  finally have "P div 2 ^ d = (q * 2 ^ (W - d) * 2 ^ d + r) div 2 ^ d"
    by simp
  also have "\<dots> = q * 2 ^ (W - d) + r div 2 ^ d"
    by (simp add: div_mult_self3)
  finally show ?thesis by (simp add: q_def r_def)
qed

lemma high_bits_iff:
  fixes P W d :: nat
  shows "(P div 2 ^ W) div 2 ^ d \<noteq> 0 \<longleftrightarrow> 2 ^ W \<le> P div 2 ^ d"
proof -
  have "(P div 2 ^ W) div 2 ^ d = (P div 2 ^ d) div 2 ^ W"
    by (simp add: div_mult2_eq[symmetric] mult.commute)
  then show ?thesis
    by (simp add: div_greater_zero_iff)
qed

lemma mul_alpha_sz_max_unat:
  fixes n a d :: "'a::len word"
  assumes ok: "size_t_ok TYPE('a)" and d: "unat d < LENGTH('a)"
  shows "unat (mul_alpha_sz_max n a d) = min (unat n * unat a div 2 ^ unat d) (2 ^ LENGTH('a) - 1)"
proof -
  define P where "P = unat n * unat a"
  define h l where "h = fst (mul_ext n a)" and "l = snd (mul_ext n a)"
  have h: "unat h = P div 2 ^ LENGTH('a)" and l: "unat l = P mod 2 ^ LENGTH('a)"
    by (simp_all add: h_def l_def P_def unat_mul_ext_fst unat_mul_ext_snd)
  have me: "mul_ext n a = (h, l)" by (simp add: h_def l_def)
  have sat: "drop_bit (unat d) h \<noteq> 0 \<longleftrightarrow> 2 ^ LENGTH('a) \<le> P div 2 ^ unat d"
  proof -
    have "drop_bit (unat d) h \<noteq> 0 \<longleftrightarrow> unat (drop_bit (unat d) h) \<noteq> 0"
      by (simp add: unat_eq_0)
    also have "unat (drop_bit (unat d) h) = drop_bit (unat d) (unat h)"
      by (rule unat_drop_bit_eq)
    also have "drop_bit (unat d) (unat h) = (P div 2 ^ LENGTH('a)) div 2 ^ unat d"
      by (simp only: drop_bit_eq_div h)
    finally show ?thesis by (simp only: high_bits_iff)
  qed
  show ?thesis
  proof (cases "drop_bit (unat d) h \<noteq> 0")
    case True
    then have "mul_alpha_sz_max n a d = C_SIZE_MAX"
      by (simp add: mul_alpha_sz_max_def me)
    moreover have "unat (C_SIZE_MAX :: 'a word) = 2 ^ LENGTH('a) - 1"
      by (simp add: C_SIZE_MAX_def unsigned_minus_1_eq_mask mask_eq_exp_minus_1)
    ultimately show ?thesis using True sat by (simp add: P_def)
  next
    case False
    then have small: "P div 2 ^ unat d < 2 ^ LENGTH('a)" using sat by simp
    have sub: "unat (of_nat (C_FULL_BIT TYPE('a)) - d) = LENGTH('a) - unat d"
    proof -
      have "unat (of_nat LENGTH('a) :: 'a word) = LENGTH('a)"
        by (simp add: unat_of_nat)
      moreover have "d \<le> (of_nat LENGTH('a) :: 'a word)"
        using d calculation by (simp add: word_le_nat_alt)
      ultimately show ?thesis
        by (simp add: C_FULL_BIT_eq[OF ok] unat_sub)
    qed
    have split: "P div 2 ^ unat d = unat l div 2 ^ unat d + unat h * 2 ^ (LENGTH('a) - unat d)"
      using shift_split[of "unat d" "LENGTH('a)" P] d by (simp add: h l)
    have "unat (drop_bit (unat d) l) = drop_bit (unat d) (unat l)"
      by (rule unat_drop_bit_eq)
    then have ul: "unat (drop_bit (unat d) l) = unat l div 2 ^ unat d"
      by (simp only: drop_bit_eq_div)
    have hs: "unat h * 2 ^ (LENGTH('a) - unat d) < 2 ^ LENGTH('a)"
      using small split by simp
    have uh: "unat (push_bit (LENGTH('a) - unat d) h) = unat h * 2 ^ (LENGTH('a) - unat d)"
    proof -
      have "unat (push_bit (LENGTH('a) - unat d) h)
          = take_bit LENGTH('a) (push_bit (LENGTH('a) - unat d) (unat h))"
        by (rule unsigned_push_bit_eq)
      also have "push_bit (LENGTH('a) - unat d) (unat h) = unat h * 2 ^ (LENGTH('a) - unat d)"
        by (rule push_bit_eq_mult)
      also have "take_bit LENGTH('a) (unat h * 2 ^ (LENGTH('a) - unat d))
          = unat h * 2 ^ (LENGTH('a) - unat d)"
        using hs by (rule take_bit_nat_eq_self)
      finally show ?thesis .
    qed
    have "mul_alpha_sz_max n a d = drop_bit (unat d) l + push_bit (LENGTH('a) - unat d) h"
      using False by (simp add: mul_alpha_sz_max_def me sub)
    moreover have "unat (drop_bit (unat d) l + push_bit (LENGTH('a) - unat d) h)
        = unat l div 2 ^ unat d + unat h * 2 ^ (LENGTH('a) - unat d)"
      using small split by (simp add: unat_add_lem[THEN iffD1] ul uh)
    ultimately show ?thesis using small split by (simp add: P_def)
  qed
qed


lemma size_t_ok_64: "size_t_ok TYPE(64)"
  by (simp add: size_t_ok_def C_BYTE_BIT_def)

lemma mul_ext_high_iff:
  fixes M a d :: "'a::len word"
  shows "drop_bit (unat d) (fst (mul_ext M a)) \<noteq> 0
     \<longleftrightarrow> 2 ^ LENGTH('a) \<le> unat M * unat a div 2 ^ unat d"
proof -
  have "drop_bit (unat d) (fst (mul_ext M a)) \<noteq> 0
      \<longleftrightarrow> unat (drop_bit (unat d) (fst (mul_ext M a))) \<noteq> 0"
    by (simp add: unat_eq_0)
  also have "unat (drop_bit (unat d) (fst (mul_ext M a)))
      = drop_bit (unat d) (unat (fst (mul_ext M a)))"
    by (rule unat_drop_bit_eq)
  also have "\<dots> = (unat M * unat a div 2 ^ LENGTH('a)) div 2 ^ unat d"
    by (simp only: drop_bit_eq_div unat_mul_ext_fst)
  finally show ?thesis by (simp only: high_bits_iff)
qed

text \<open>
  Claim C2, as the code has it. For every \<open>M\<close>, every \<open>alpha_n \<ge> 1\<close> and every
  \<open>log_alpha_d\<close> below the word width, \<^verbatim>\<open>mul_alpha_sz_max\<close> returns
  \<open>floor (M * alpha_n / 2 ^ log_alpha_d)\<close> saturated at the maximal word; the saturating
  branch is the one taken when some bit of the high half of the product lies at position
  \<open>log_alpha_d\<close> or above, and that is the case exactly when the quotient is not
  representable in a word. (The maximal word is also returned, by the other branch, when the
  quotient is the maximal word itself.)
\<close>

theorem mul_alpha_sz_max_saturated:
  fixes M a d :: "'a::len word"
  assumes "size_t_ok TYPE('a)" and "1 \<le> a" and "unat d < LENGTH('a)"
  shows "unat (mul_alpha_sz_max M a d)
           = min (unat M * unat a div 2 ^ unat d) (2 ^ LENGTH('a) - 1)
       \<and> (drop_bit (unat d) (fst (mul_ext M a)) \<noteq> 0
            \<longleftrightarrow> 2 ^ LENGTH('a) \<le> unat M * unat a div 2 ^ unat d)
       \<and> (drop_bit (unat d) (fst (mul_ext M a)) \<noteq> 0
            \<longrightarrow> mul_alpha_sz_max M a d = C_SIZE_MAX)"
proof (intro conjI impI)
  show "unat (mul_alpha_sz_max M a d)
      = min (unat M * unat a div 2 ^ unat d) (2 ^ LENGTH('a) - 1)"
    using assms(1,3) by (rule mul_alpha_sz_max_unat)
  show "drop_bit (unat d) (fst (mul_ext M a)) \<noteq> 0
      \<longleftrightarrow> 2 ^ LENGTH('a) \<le> unat M * unat a div 2 ^ unat d"
    by (rule mul_ext_high_iff)
  assume "drop_bit (unat d) (fst (mul_ext M a)) \<noteq> 0"
  then show "mul_alpha_sz_max M a d = C_SIZE_MAX"
    by (cases "mul_ext M a") (simp add: mul_alpha_sz_max_def)
qed

theorem mul_alpha_sz_max_saturated_witness:
  "size_t_ok TYPE(64) \<and> (1 :: 64 word) \<le> 3 \<and> unat (3 :: 64 word) < LENGTH(64)
     \<and> unat (mul_alpha_sz_max (1543 :: 64 word) 3 3) = 578
     \<and> drop_bit (unat (3 :: 64 word)) (fst (mul_ext (1543 :: 64 word) 3)) = 0"
proof -
  have ok: "size_t_ok TYPE(64)" by (rule size_t_ok_64)
  have a: "(1 :: 64 word) \<le> 3" by simp
  have d: "unat (3 :: 64 word) < LENGTH(64)" by simp
  from mul_alpha_sz_max_saturated[OF ok a d, of 1543]
  show ?thesis using ok by simp
qed

theorem mul_alpha_sz_max_word_max_counterexample:
  "\<not> (mul_alpha_sz_max (1543 :: 64 word) 12242038840880480139 10 = C_SIZE_MAX
        \<longleftrightarrow> drop_bit (unat (10 :: 64 word)) (fst (mul_ext (1543 :: 64 word) 12242038840880480139)) \<noteq> 0)"
  by (simp add: mul_alpha_sz_max_def mul_ext_def C_SIZE_MAX_def C_FULL_BIT_def
      sizeof_size_t_def C_BYTE_BIT_def)

section \<open>The word a key is hashed from\<close>

lemma add_buf_sum:
  "add_buf s buf n = s + (\<Sum>i<n. push_bit (i * C_BYTE_BIT) (ucast (buf ! i)))"
  by (induction n) (simp_all add: add_buf_def add.assoc)

lemma fold_add_sum:
  fixes g :: "nat \<Rightarrow> 'a::comm_monoid_add"
  shows "fold (\<lambda>j s. s + g j) [0..<c] s0 = s0 + (\<Sum>j<c. g j)"
  by (induction c) (simp_all add: add.assoc)

lemma sum_blocks:
  fixes G :: "nat \<Rightarrow> 'a::comm_monoid_add"
  shows "(\<Sum>m<c * B. G m) = (\<Sum>j<c. \<Sum>i<B. G (j * B + i))"
proof (induction c)
  case 0
  show ?case by simp
next
  case (Suc c)
  have "(\<Sum>m<Suc c * B. G m) = (\<Sum>m<c * B. G m) + (\<Sum>m = c * B..<c * B + B. G m)"
    by (simp add: lessThan_atLeast0 sum.atLeastLessThan_concat add.commute)
  also have "(\<Sum>m = c * B..<c * B + B. G m) = (\<Sum>i<B. G (c * B + i))"
    using sum.shift_bounds_nat_ivl[of G 0 "c * B" B]
    by (simp add: lessThan_atLeast0 add.commute)
  finally show ?case by (simp add: Suc.IH)
qed

lemma sum_split_blocks:
  fixes F :: "nat \<Rightarrow> 'a::comm_monoid_add"
  shows "(\<Sum>i<r + c * B. F i) = (\<Sum>i<r. F i) + (\<Sum>j<c. \<Sum>i<B. F (r + j * B + i))"
proof -
  have "(\<Sum>i<r + c * B. F i) = (\<Sum>i<r. F i) + (\<Sum>i = r..<r + c * B. F i)"
    by (simp add: lessThan_atLeast0 sum.atLeastLessThan_concat)
  also have "(\<Sum>i = r..<r + c * B. F i) = (\<Sum>m<c * B. F (r + m))"
    using sum.shift_bounds_nat_ivl[of F 0 r "c * B"]
    by (simp add: lessThan_atLeast0 add.commute)
  also have "\<dots> = (\<Sum>j<c. \<Sum>i<B. F (r + (j * B + i)))"
    by (rule sum_blocks)
  finally show ?thesis by (simp add: add.assoc)
qed

lemma convert_std_key_sum:
  fixes ht :: "'a::len ht_divchn"
  assumes ok: "size_t_ok TYPE('a)" and rdc: "rdc_key ht = None"
    and len: "length k = unat (key_size ht)"
  shows "convert_std_key ht k =
    (\<Sum>i<length k. push_bit (C_BYTE_BIT * byte_pos (sizeof_size_t TYPE('a)) (length k mod sizeof_size_t TYPE('a)) i)
        (ucast (k ! i)))"
proof -
  define B where "B = sizeof_size_t TYPE('a)"
  define c where "c = length k div B"
  define r where "r = length k mod B"
  define F :: "nat \<Rightarrow> 'a word" where
    "F i = push_bit (byte_pos B r i * C_BYTE_BIT) (ucast (k ! i))" for i
  have Bpos: "0 < B"
    using ok by (auto simp: B_def size_t_ok_def sizeof_size_t_def C_BYTE_BIT_def)
  have rlt: "r < B" using Bpos by (simp add: r_def)
  have K: "length k = r + c * B"
    by (simp add: r_def c_def)
  have rem: "length k - c * B = r"
    using K by simp
  have rem2: "length k + j * B - c * B = r + j * B" for j
    using K by simp
  define buf where "buf = memcpy (replicate B 0) k r"
  have head: "add_buf 0 buf r = (\<Sum>i<r. F i)"
  proof -
    have "\<And>i. i < r \<Longrightarrow> buf ! i = k ! i"
      using K by (simp add: buf_def memcpy_def nth_append)
    then show ?thesis
      by (simp add: add_buf_sum F_def byte_pos_def)
  qed
  have block: "add_buf s (memcpy buf (drop (r + j * B) k) B) B = s + (\<Sum>i<B. F (r + j * B + i))"
    if "j < c" for j and s :: "'a word"
  proof -
    have "Suc j * B \<le> c * B" using that by (intro mult_le_mono1) simp
    then have room: "r + j * B + B \<le> length k" using K by simp
    have nth: "memcpy buf (drop (r + j * B) k) B ! i = k ! (r + j * B + i)" if "i < B" for i
      using that room by (simp add: memcpy_def nth_append)
    have pos: "byte_pos B r (r + j * B + i) = i" if "i < B" for i
      using that by (simp add: byte_pos_def)
    show ?thesis
      by (simp add: add_buf_sum F_def nth pos)
  qed
  have "convert_std_key ht k
      = fold (\<lambda>j s. add_buf s (memcpy buf (drop (r + j * B) k) B) B) [0..<c] (add_buf 0 buf r)"
    by (simp add: convert_std_key_def rdc Let_def len[symmetric] B_def[symmetric]
        c_def[symmetric] rem rem2 buf_def)
  also have "\<dots> = fold (\<lambda>j s. s + (\<Sum>i<B. F (r + j * B + i))) [0..<c] (add_buf 0 buf r)"
    by (rule fold_cong) (simp_all add: block)
  also have "\<dots> = (\<Sum>i<r. F i) + (\<Sum>j<c. \<Sum>i<B. F (r + j * B + i))"
    by (simp add: fold_add_sum head)
  also have "\<dots> = (\<Sum>i<length k. F i)"
    by (simp add: K sum_split_blocks)
  finally show ?thesis
    by (simp add: F_def B_def r_def mult.commute)
qed

lemma sum_push_little_endian:
  "(\<Sum>i<length k. push_bit (i * 8) (ucast (k ! i)) :: 'a::len word) = of_nat (little_endian k)"
proof (induction k)
  case Nil
  show ?case by simp
next
  case (Cons b bs)
  have "(\<Sum>i<length (b # bs). push_bit (i * 8) (ucast ((b # bs) ! i)) :: 'a word)
      = ucast b + (\<Sum>i<length bs. push_bit (Suc i * 8) (ucast (bs ! i)))"
    by (simp add: sum.lessThan_Suc_shift del: sum.lessThan_Suc)
  also have "(\<Sum>i<length bs. push_bit (Suc i * 8) (ucast (bs ! i)) :: 'a word)
      = 256 * (\<Sum>i<length bs. push_bit (i * 8) (ucast (bs ! i)))"
    by (simp add: sum_distrib_left push_bit_eq_mult power_add mult.assoc mult.left_commute)
  finally show ?case
    by (simp add: Cons.IH)
qed

lemma little_endian_less: "little_endian k < 256 ^ length k"
proof (induction k)
  case Nil
  show ?case by simp
next
  case (Cons b bs)
  have "unat b < 256" using unsigned_less[of b] by simp
  moreover have "little_endian bs + 1 \<le> 256 ^ length bs" using Cons.IH by simp
  then have "256 * (little_endian bs + 1) \<le> 256 * 256 ^ length bs"
    by (rule mult_le_mono2)
  ultimately show ?case by simp
qed


lemma byte_pos_short: "K \<le> B \<Longrightarrow> i < K \<Longrightarrow> byte_pos B (K mod B) i = i"
  by (cases "K = B") (simp_all add: byte_pos_def)

text \<open>
  Claim C1, as the code has it. With no reducer callback, the word a key of \<open>key_size\<close>
  bytes is hashed from is the sum, wrapping in the word, of every byte \<open>i\<close> shifted left
  by 8 times its position in its block: the key is read as a leading block of
  \<open>key_size mod sizeof(size_t)\<close> bytes followed by blocks of \<open>sizeof(size_t)\<close> bytes.
  For a key no longer than a word this is the key read as a little-endian integer. The
  bucket index is this word modulo the current modulus.
\<close>

theorem convert_std_key_blocks:
  fixes ht :: "'a::len ht_divchn"
  assumes ok: "size_t_ok TYPE('a)" and rdc: "rdc_key ht = None"
    and len: "length k = unat (key_size ht)"
  shows "convert_std_key ht k =
      (\<Sum>i<length k.
          push_bit (C_BYTE_BIT * byte_pos (sizeof_size_t TYPE('a))
                                   (length k mod sizeof_size_t TYPE('a)) i)
            (ucast (k ! i)))
    \<and> (length k \<le> sizeof_size_t TYPE('a)
          \<longrightarrow> unat (convert_std_key ht k) = little_endian k)
    \<and> hash ht k = convert_std_key ht k mod count ht"
proof (intro conjI impI)
  show eq: "convert_std_key ht k =
      (\<Sum>i<length k.
          push_bit (C_BYTE_BIT * byte_pos (sizeof_size_t TYPE('a))
                                   (length k mod sizeof_size_t TYPE('a)) i)
            (ucast (k ! i)))"
    using ok rdc len by (rule convert_std_key_sum)
  show "hash ht k = convert_std_key ht k mod count ht"
    by (simp add: hash_def)
  assume short: "length k \<le> sizeof_size_t TYPE('a)"
  have "convert_std_key ht k = (\<Sum>i<length k. push_bit (i * 8) (ucast (k ! i)))"
    unfolding eq by (rule sum.cong) (simp_all add: byte_pos_short[OF short] C_BYTE_BIT_def mult.commute)
  then have w: "convert_std_key ht k = of_nat (little_endian k)"
    by (simp only: sum_push_little_endian)
  have "(256::nat) ^ length k = 2 ^ (8 * length k)"
    by (simp add: power_mult)
  also have "\<dots> \<le> 2 ^ LENGTH('a)"
    using short by (intro power_increasing) (simp_all add: sizeof_size_t_def C_BYTE_BIT_def)
  finally have "little_endian k < 2 ^ LENGTH('a)"
    using little_endian_less[of k] by simp
  then show "unat (convert_std_key ht k) = little_endian k"
    by (simp add: w unat_of_nat)
qed

theorem convert_std_key_blocks_witness:
  "size_t_ok TYPE(64) \<and> rdc_key (ht_example 8) = None
     \<and> length [1, 2, 0, 0, 0, 0, 0, 0 :: byte] = unat (key_size (ht_example 8))
     \<and> length [1, 2, 0, 0, 0, 0, 0, 0 :: byte] \<le> sizeof_size_t TYPE(64)
     \<and> unat (convert_std_key (ht_example 8) [1, 2, 0, 0, 0, 0, 0, 0]) = 513
     \<and> hash (ht_example 8) [1, 2, 0, 0, 0, 0, 0, 0] = 513"
proof -
  have ok: "size_t_ok TYPE(64)" by (rule size_t_ok_64)
  have rdc: "rdc_key (ht_example 8) = None" by (simp add: ht_example_def)
  have len: "length [1, 2, 0, 0, 0, 0, 0, 0 :: byte] = unat (key_size (ht_example 8))"
    by (simp add: ht_example_def)
  have short: "length [1, 2, 0, 0, 0, 0, 0, 0 :: byte] \<le> sizeof_size_t TYPE(64)"
    by (simp add: sizeof_size_t_def C_BYTE_BIT_def)
  have c: "count (ht_example 8) = 1543" by (simp add: ht_example_def)
  note th = convert_std_key_blocks[OF ok rdc len]
  have "unat (convert_std_key (ht_example 8) [1, 2, 0, 0, 0, 0, 0, 0])
      = little_endian [1, 2, 0, 0, 0, 0, 0, 0]"
    using th short by blast
  then have u: "unat (convert_std_key (ht_example 8) [1, 2, 0, 0, 0, 0, 0, 0]) = 513"
    by simp
  have "of_nat (unat (convert_std_key (ht_example 8) [1, 2, 0, 0, 0, 0, 0, 0]))
      = (of_nat 513 :: 64 word)"
    by (simp only: u)
  then have w: "convert_std_key (ht_example 8) [1, 2, 0, 0, 0, 0, 0, 0] = 513"
    by simp
  have "hash (ht_example 8) [1, 2, 0, 0, 0, 0, 0, 0]
      = convert_std_key (ht_example 8) [1, 2, 0, 0, 0, 0, 0, 0] mod count (ht_example 8)"
    using th by blast
  then have h: "hash (ht_example 8) [1, 2, 0, 0, 0, 0, 0, 0] = 513"
    by (simp add: w c)
  show ?thesis using ok rdc len short u h by blast
qed

theorem convert_std_key_little_endian_counterexample:
  "convert_std_key (ht_example 9) [0, 1, 0, 0, 0, 0, 0, 0, 0]
      \<noteq> (\<Sum>i<9. push_bit (i * 8 mod 64) (ucast ([0, 1, 0, 0, 0, 0, 0, 0, 0 :: byte] ! i)))
   \<and> unat (convert_std_key (ht_example 9) [0, 1, 0, 0, 0, 0, 0, 0, 0])
      \<noteq> little_endian [0, 1, 0, 0, 0, 0, 0, 0, 0] mod 2 ^ 64
   \<and> unat (convert_std_key (ht_example 16) [0, 0, 0, 0, 0, 0, 0, 0, 1, 0, 0, 0, 0, 0, 0, 0])
      \<noteq> little_endian [0, 0, 0, 0, 0, 0, 0, 0, 1, 0, 0, 0, 0, 0, 0, 0] mod 2 ^ 64"
proof -
  have a: "convert_std_key (ht_example 9) [0, 1, 0, 0, 0, 0, 0, 0, 0] = 1"
    by (simp add: ht_example_def convert_std_key_def sizeof_size_t_def C_BYTE_BIT_def
        add_buf_def memcpy_def upt_rec nth_Cons')
  have b: "(\<Sum>i<9. push_bit (i * 8 mod 64) (ucast ([0, 1, 0, 0, 0, 0, 0, 0, 0 :: byte] ! i))
      :: 64 word) = 256"
    by (simp add: lessThan_nat_numeral lessThan_Suc)
  have c: "convert_std_key (ht_example 16) [0, 0, 0, 0, 0, 0, 0, 0, 1, 0, 0, 0, 0, 0, 0, 0] = 1"
    by (simp add: ht_example_def convert_std_key_def sizeof_size_t_def C_BYTE_BIT_def
        add_buf_def memcpy_def upt_rec nth_Cons')
  show ?thesis
    by (simp add: a b c)
qed

section \<open>The primes of the ladder\<close>

lemma ladder_eq: "ladder =
 [(0, 1), (1, 1), (2, 1), (3, 1), (4, 1), (5, 1), (6, 2), (8, 2), (10, 2),
  (12, 2), (14, 2), (16, 2), (18, 2), (20, 2), (22, 2), (24, 2), (26, 2),
  (28, 2), (30, 2), (32, 2), (34, 2), (36, 2), (38, 3), (41, 3), (44, 3),
  (47, 3), (50, 3), (53, 3), (56, 3), (59, 3), (62, 3), (65, 3), (68, 3),
  (71, 3), (74, 3), (77, 3), (80, 3), (83, 3), (86, 4), (90, 4), (94, 4),
  (98, 4), (102, 4), (106, 4), (110, 4), (114, 4), (118, 4), (122, 4),
  (126, 4), (130, 4), (134, 4), (138, 4), (142, 4), (146, 4)]"
  by code_simp


lemma ladder_rows: "list_all ladder_row_ok (zip ladder C_PRIMES)"
  unfolding ladder_eq C_PRIMES_def
  by (simp add: ladder_row_ok_def C_PRIME_PARTS_def upt_rec bitlen.simps)


lemma len_ladder: "length ladder = 54" unfolding ladder_eq by simp
lemma len_primes: "length C_PRIMES = 54" by (simp add: C_PRIMES_def)
lemma len_parts: "length C_PRIME_PARTS = 150" by (simp add: C_PRIME_PARTS_def)

lemma ladder_row:
  assumes "i < length ladder" and "ladder ! i = (s, c)"
  shows "ladder_row_ok ((s, c), C_PRIMES ! i)"
proof -
  have "i < length (zip ladder C_PRIMES)"
    using assms(1) by (simp add: len_ladder len_primes)
  then have "ladder_row_ok (zip ladder C_PRIMES ! i)"
    using ladder_rows by (simp add: list_all_length)
  then show ?thesis
    using assms by (simp add: len_ladder len_primes)
qed

lemma unat_of_nat_small:
  "16 \<le> LENGTH('a::len) \<Longrightarrow> n < 65536 \<Longrightarrow> unat (of_nat n :: 'a word) = n"
proof -
  assume W: "16 \<le> LENGTH('a)" and n: "n < 65536"
  have "(65536::nat) = 2 ^ 16" by simp
  also have "\<dots> \<le> 2 ^ LENGTH('a)" using W by (intro power_increasing) simp_all
  finally show ?thesis using n by (simp add: unat_of_nat)
qed

lemma tab_of_nat:
  assumes "16 \<le> LENGTH('a::len)" and "n < length xs" and "n < 65536"
  shows "tab xs (of_nat n :: 'a word) = Some (of_nat (xs ! n))"
  using assms by (simp add: tab_def unat_of_nat_small)

lemma or_push_add:
  fixes P X :: nat
  assumes "P < 2 ^ n"
  shows "P OR push_bit n X = P + push_bit n X"
proof -
  have "take_bit n P = P" using assms by (simp add: take_bit_nat_eq_self)
  moreover have "take_bit n P AND push_bit n X = 0"
    by (simp add: bit_eq_iff bit_simps)
  ultimately show ?thesis
    by (simp add: disjunctive_add_eq_or)
qed

lemma build_prime_from_of_nat:
  assumes W: "16 \<le> LENGTH('a::len)"
  shows "s + i + n \<le> length C_PRIME_PARTS
    \<Longrightarrow> (\<And>j. j < n \<Longrightarrow> C_PRIME_PARTS ! (s + i + j) < 2 ^ 16)
    \<Longrightarrow> P < 2 ^ (i * 16)
    \<Longrightarrow> build_prime_from (of_nat s :: 'a word) n i (of_nat P)
        = Some (of_nat (P + (\<Sum>j<n. C_PRIME_PARTS ! (s + i + j) * 2 ^ ((i + j) * 16))))"
proof (induction n arbitrary: i P)
  case 0
  show ?case by simp
next
  case (Suc n)
  define X where "X = C_PRIME_PARTS ! (s + i)"
  have X: "X < 2 ^ 16" using Suc.prems(2)[of 0] by (simp add: X_def)
  have idx: "s + i < length C_PRIME_PARTS" "s + i < 65536"
    using Suc.prems(1) by (simp_all add: len_parts)
  have rd: "tab C_PRIME_PARTS (of_nat s + of_nat i :: 'a word) = Some (of_nat X)"
    using tab_of_nat[OF W idx] by (simp add: X_def)
  have "(of_nat P :: 'a word) OR push_bit (i * C_BUILD_SHIFT) (of_nat X)
      = of_nat (P OR push_bit (i * 16) X)"
    by (simp add: of_nat_or_eq of_nat_push_bit C_BUILD_SHIFT_def)
  also have "P OR push_bit (i * 16) X = P + X * 2 ^ (i * 16)"
    using or_push_add[OF Suc.prems(3)] by (simp add: push_bit_eq_mult)
  finally have acc: "(of_nat P :: 'a word) OR push_bit (i * C_BUILD_SHIFT) (of_nat X)
      = of_nat (P + X * 2 ^ (i * 16))" .
  define Q :: nat where "Q = 2 ^ (i * 16)"
  have "X * Q + Q \<le> 65536 * Q"
    using X mult_le_mono1[of "Suc X" 65536 Q] by simp
  moreover have "P < Q" using Suc.prems(3) by (simp add: Q_def)
  ultimately have "P + X * Q < 65536 * Q" by linarith
  then have bound: "P + X * 2 ^ (i * 16) < 2 ^ (Suc i * 16)"
    by (simp add: Q_def power_add)
  have sums: "P + X * 2 ^ (i * 16)
          + (\<Sum>j<n. C_PRIME_PARTS ! (s + Suc i + j) * 2 ^ ((Suc i + j) * 16))
      = P + (\<Sum>j<Suc n. C_PRIME_PARTS ! (s + i + j) * 2 ^ ((i + j) * 16))"
    by (simp add: X_def sum.lessThan_Suc_shift ac_simps del: sum.lessThan_Suc)
  have "build_prime_from (of_nat s :: 'a word) (Suc n) i (of_nat P)
      = build_prime_from (of_nat s :: 'a word) n (Suc i) (of_nat (P + X * 2 ^ (i * 16)))"
    by (simp only: build_prime_from.simps rd option.case acc)
  also have "\<dots> = Some (of_nat (P + X * 2 ^ (i * 16)
          + (\<Sum>j<n. C_PRIME_PARTS ! (s + Suc i + j) * 2 ^ ((Suc i + j) * 16))))"
    using Suc.prems(1) Suc.prems(2)[of "Suc _"] bound
    by (intro Suc.IH) simp_all
  finally show ?case
    by (simp only: sums)
qed


lemma bit_count_bitlen:
  "bit_count n c = c + of_nat (bitlen (unat n))"
proof (induction n c rule: bit_count.induct)
  case (1 n c)
  show ?case
  proof (cases "n = 0")
    case True
    then show ?thesis by (simp add: bit_count.simps bitlen.simps)
  next
    case False
    have "unat (drop_bit 1 n) = drop_bit 1 (unat n)"
      by (rule unat_drop_bit_eq)
    then have half: "unat (drop_bit 1 n) = unat n div 2"
      by (simp only: drop_bit_eq_div power_one_right)
    have nz: "unat n \<noteq> 0" using False by (simp add: unat_eq_0)
    have "bit_count n c = bit_count (drop_bit 1 n) (c + 1)"
      using False by (subst bit_count.simps) simp
    also have "\<dots> = c + 1 + of_nat (bitlen (unat n div 2))"
      using "1.IH"[OF False] by (simp only: half)
    also have "\<dots> = c + of_nat (bitlen (unat n))"
      using nz by (subst (2) bitlen.simps) simp
    finally show ?thesis .
  qed
qed

lemma bitlen_le: "X < 2 ^ n \<Longrightarrow> bitlen X \<le> n"
proof (induction n arbitrary: X)
  case 0
  then show ?case by (simp add: bitlen.simps)
next
  case (Suc n)
  show ?case
  proof (cases "X = 0")
    case True
    then show ?thesis by (simp add: bitlen.simps)
  next
    case False
    have "X div 2 < 2 ^ n" using Suc.prems by simp
    then have "bitlen (X div 2) \<le> n" by (rule Suc.IH)
    then show ?thesis using False by (subst bitlen.simps) simp
  qed
qed

lemma is_overflow_of_nat:
  assumes ok: "size_t_ok TYPE('a::len)"
    and c: "1 \<le> c" "c \<le> 4" and range: "s + c \<le> length C_PRIME_PARTS"
    and X: "C_PRIME_PARTS ! (s + (c - 1)) < 2 ^ 16"
  shows "is_overflow (of_nat s :: 'a word) (of_nat c)
      = Some (LENGTH('a) < bitlen (C_PRIME_PARTS ! (s + (c - 1))) + (c - 1) * 16)"
proof -
  define X where "X = C_PRIME_PARTS ! (s + (c - 1))"
  have W: "16 \<le> LENGTH('a)" using ok by (simp add: size_t_ok_def)
  have p16: "(65536::nat) \<le> 2 ^ LENGTH('a)"
    using power_increasing[OF W, of "2::nat"] by simp
  have c1: "(of_nat c :: 'a word) - 1 = of_nat (c - 1)"
    using c(1) by (simp add: of_nat_diff)
  have idx: "(of_nat s :: 'a word) + (of_nat c - 1) = of_nat (s + (c - 1))"
    by (simp add: c1)
  have rd: "tab C_PRIME_PARTS (of_nat (s + (c - 1)) :: 'a word) = Some (of_nat X)"
    unfolding X_def using range c by (intro tab_of_nat[OF W]) (simp_all add: len_parts)
  have uX: "unat (of_nat X :: 'a word) = X"
    using X by (intro unat_of_nat_small[OF W]) (simp add: X_def)
  have bl: "bitlen X \<le> 16" using X by (intro bitlen_le) (simp add: X_def)
  have lhs: "bit_count (of_nat X :: 'a word) 0 + (of_nat c - 1) * of_nat C_BUILD_SHIFT
      = of_nat (bitlen X + (c - 1) * 16)"
    by (simp add: bit_count_bitlen uX c1 C_BUILD_SHIFT_def)
  have ul: "unat (of_nat (bitlen X + (c - 1) * 16) :: 'a word) = bitlen X + (c - 1) * 16"
    using bl c(2) by (intro unat_of_nat_small[OF W]) simp
  have "LENGTH('a) < 2 ^ LENGTH('a)" by simp
  then have ur: "unat (of_nat (C_FULL_BIT TYPE('a)) :: 'a word) = LENGTH('a)"
    by (simp add: C_FULL_BIT_eq[OF ok] unat_of_nat)
  have "is_overflow (of_nat s :: 'a word) (of_nat c)
      = Some ((of_nat (C_FULL_BIT TYPE('a)) :: 'a word) < of_nat (bitlen X + (c - 1) * 16))"
    by (simp only: is_overflow_def idx rd option.case lhs)
  also have "\<dots> = Some (LENGTH('a) < bitlen X + (c - 1) * 16)"
    by (simp only: word_less_nat_alt ul ur)
  finally show ?thesis by (simp only: X_def)
qed

lemma sum_list_upt_sum: "sum_list (map f [0..<n]) = (\<Sum>j<n. f j :: nat)"
  by (simp add: interv_sum_list_conv_sum_set_nat lessThan_atLeast0)

text \<open>
  Claim C9. For every position of the ladder that is valid on the host (\<^verbatim>\<open>is_overflow\<close>
  returns 0 there), \<^verbatim>\<open>build_prime\<close>, which ORs the parts of the prime shifted by
  0, 16, 32 and 48 bits, returns the prime documented for the position; the prime is
  the sum of its at most four 16-bit parts at these shifts. The first modulus of the ladder
  is 1543.
\<close>

theorem build_prime_ladder:
  assumes ok: "size_t_ok TYPE('a::len)"
    and i: "i < length ladder" and pos: "ladder ! i = (start, cnt)"
    and valid: "is_overflow (of_nat start :: 'a word) (of_nat cnt) = Some False"
  shows "build_prime (of_nat start :: 'a word) (of_nat cnt) = Some (of_nat (C_PRIMES ! i))
    \<and> unat (of_nat (C_PRIMES ! i) :: 'a word) = C_PRIMES ! i
    \<and> C_PRIMES ! i = (\<Sum>j<cnt. C_PRIME_PARTS ! (start + j) * 2 ^ (j * C_BUILD_SHIFT))
    \<and> cnt \<le> 4
    \<and> (\<forall>j<cnt. C_PRIME_PARTS ! (start + j) < 2 ^ C_BUILD_SHIFT)
    \<and> ladder ! 0 = (0, 1) \<and> C_PRIMES ! 0 = 1543"
proof -
  have W: "16 \<le> LENGTH('a)" using ok by (simp add: size_t_ok_def)
  note row = ladder_row[OF i pos, unfolded ladder_row_ok_def prod.case]
  have c: "1 \<le> cnt" "cnt \<le> 4" and range: "start + cnt \<le> length C_PRIME_PARTS"
    using row by blast+
  have "list_all (\<lambda>j. C_PRIME_PARTS ! (start + j) < 2 ^ 16) [0..<cnt]"
    using row by blast
  then have parts: "C_PRIME_PARTS ! (start + j) < 2 ^ 16" if "j < cnt" for j
    using that by (simp add: list_all_iff)
  have "C_PRIMES ! i = sum_list (map (\<lambda>j. C_PRIME_PARTS ! (start + j) * 2 ^ (j * 16)) [0..<cnt])"
    using row by blast
  then have val: "C_PRIMES ! i = (\<Sum>j<cnt. C_PRIME_PARTS ! (start + j) * 2 ^ (j * 16))"
    by (simp only: sum_list_upt_sum)
  have up: "C_PRIMES ! i < 2 ^ (bitlen (C_PRIME_PARTS ! (start + (cnt - 1))) + (cnt - 1) * 16)"
    using row by blast
  have top: "C_PRIME_PARTS ! (start + (cnt - 1)) < 2 ^ 16"
    using parts[of "cnt - 1"] c by simp
  have "\<not> LENGTH('a) < bitlen (C_PRIME_PARTS ! (start + (cnt - 1))) + (cnt - 1) * 16"
    using valid is_overflow_of_nat[OF ok c range top] by simp
  then have "bitlen (C_PRIME_PARTS ! (start + (cnt - 1))) + (cnt - 1) * 16 \<le> LENGTH('a)"
    by simp
  then have "(2::nat) ^ (bitlen (C_PRIME_PARTS ! (start + (cnt - 1))) + (cnt - 1) * 16)
      \<le> 2 ^ LENGTH('a)"
    by (rule power_increasing) simp
  then have fits: "C_PRIMES ! i < 2 ^ LENGTH('a)" using up by (rule less_le_trans[rotated])
  have ucnt: "unat (of_nat cnt :: 'a word) = cnt"
    using c by (intro unat_of_nat_small[OF W]) simp
  have "build_prime_from (of_nat start :: 'a word) cnt 0 (of_nat 0)
      = Some (of_nat (0 + (\<Sum>j<cnt. C_PRIME_PARTS ! (start + 0 + j) * 2 ^ ((0 + j) * 16))))"
    using range parts by (intro build_prime_from_of_nat[OF W]) simp_all
  then have bp: "build_prime (of_nat start :: 'a word) (of_nat cnt) = Some (of_nat (C_PRIMES ! i))"
    by (simp add: build_prime_def ucnt val)
  have l0: "ladder ! 0 = (0, 1)" unfolding ladder_eq by simp
  have p0: "C_PRIMES ! 0 = 1543" by (simp add: C_PRIMES_def)
  have u: "unat (of_nat (C_PRIMES ! i) :: 'a word) = C_PRIMES ! i"
    using fits by (simp add: unat_of_nat)
  have val': "C_PRIMES ! i = (\<Sum>j<cnt. C_PRIME_PARTS ! (start + j) * 2 ^ (j * C_BUILD_SHIFT))"
    using val by (simp only: C_BUILD_SHIFT_def)
  have parts': "\<forall>j<cnt. C_PRIME_PARTS ! (start + j) < 2 ^ C_BUILD_SHIFT"
    using parts by (simp only: C_BUILD_SHIFT_def) blast
  show ?thesis
    using bp u val' c(2) parts' l0 p0 by blast
qed

theorem build_prime_ladder_witness:
  "size_t_ok TYPE(64) \<and> 0 < length ladder \<and> ladder ! 0 = (0, 1)
    \<and> is_overflow (of_nat 0 :: 64 word) (of_nat 1) = Some False
    \<and> build_prime (of_nat 0 :: 64 word) (of_nat 1) = Some 1543"
proof -
  have ok: "size_t_ok TYPE(64)" by (rule size_t_ok_64)
  have i: "0 < length ladder" by (simp add: len_ladder)
  have pos: "ladder ! 0 = (0, 1)" unfolding ladder_eq by simp
  have valid: "is_overflow (of_nat 0 :: 64 word) (of_nat 1) = Some False"
    by (simp add: is_overflow_def tab_def C_PRIME_PARTS_def bit_count.simps C_FULL_BIT_def
        sizeof_size_t_def C_BYTE_BIT_def C_BUILD_SHIFT_def)
  from build_prime_ladder[OF ok i pos valid]
  have "build_prime (of_nat 0 :: 64 word) (of_nat 1) = Some (of_nat (C_PRIMES ! 0))"
    by blast
  then have "build_prime (of_nat 0 :: 64 word) (of_nat 1) = Some 1543"
    by (simp add: C_PRIMES_def)
  then show ?thesis using ok i pos valid by blast
qed

section \<open>Searching a chain\<close>

lemma first_match_simps [simp]:
  "first_match P [] = 0"
  "first_match P (a # as) = (if P a then a else first_match P as)"
  by (simp_all add: first_match_def)

lemma compared_simps [simp]:
  "compared P [] = []"
  "compared P (a # as) = (if P a then [a] else a # compared P as)"
  by (simp_all add: compared_def)

lemma map_path: "map f (a # as) = as @ [z] \<Longrightarrow> path f (f a) as z"
  by (induction as arbitrary: a) auto

lemma dll_search_loop_path:
  "path (nxt m) x sfx head \<Longrightarrow> head \<notin> set sfx \<Longrightarrow> (\<forall>a\<in>set sfx. valid m a)
   \<Longrightarrow> dll_search_loop m head eq x seen
       = Some (first_match (\<lambda>a. eq (key m a)) sfx, seen @ compared (\<lambda>a. eq (key m a)) sfx)"
proof (induction sfx arbitrary: x seen)
  case Nil
  then show ?case by (simp add: dll_search_loop.simps)
next
  case (Cons a sfx)
  from Cons.prems have x: "x = a" and p: "path (nxt m) (nxt m a) sfx head"
    and ne: "a \<noteq> head" and v: "valid m a" by auto
  show ?case
  proof (cases "eq (key m a)")
    case True
    then show ?thesis using ne v unfolding x by (simp add: dll_search_loop.simps[of m head eq a])
  next
    case False
    have "dll_search_loop m head eq x seen = dll_search_loop m head eq (nxt m a) (seen @ [a])"
      using False ne v unfolding x by (simp add: dll_search_loop.simps[of m head eq a])
    also have "\<dots> = Some (first_match (\<lambda>a. eq (key m a)) sfx,
        (seen @ [a]) @ compared (\<lambda>a. eq (key m a)) sfx)"
      using Cons.prems by (intro Cons.IH[OF p]) auto
    finally show ?thesis using False by simp
  qed
qed

lemma cyc_valid: "cyc m ns \<Longrightarrow> a \<in> set ns \<Longrightarrow> valid m a"
  by (auto simp: cyc_def valid_def)

lemma dll_search_key_trace_ring:
  assumes "ring m head ns"
  shows "dll_search_key_trace m head (Some k) ks cmp
      = Some (first_match (\<lambda>a. key_match cmp ks (key m a) k) ns,
              compared (\<lambda>a. key_match cmp ks (key m a) k) ns)"
proof (cases ns)
  case Nil
  then show ?thesis using assms by (simp add: ring_def dll_search_key_trace_def)
next
  case (Cons a as)
  then have h: "head = a" and c: "cyc m (a # as)" using assms by (simp_all add: ring_def)
  have v: "valid m a" using c by (rule cyc_valid) simp
  have nz: "a \<noteq> 0" using v by (simp add: valid_def)
  have p: "path (nxt m) (nxt m a) as a"
    using c by (intro map_path) (simp add: cyc_def)
  have notin: "a \<notin> set as" and vs: "\<forall>b\<in>set as. valid m b"
    using c cyc_valid[OF c] by (auto simp: cyc_def)
  show ?thesis
    using dll_search_loop_path[OF p notin vs, of "\<lambda>nk. key_match cmp ks nk k" "[a]"] v nz
    by (simp add: dll_search_key_trace_def Cons h)
qed

lemma set_compared: "set (compared P ns) \<subseteq> set ns"
  by (induction ns) auto

lemma distinct_compared: "distinct ns \<Longrightarrow> distinct (compared P ns)"
  using set_compared[of P] by (induction ns) auto


text \<open>
  Claim C10. \<^verbatim>\<open>dll_search_key\<close> returns \<^verbatim>\<open>NULL\<close> and compares no key when the key
  pointer is \<^verbatim>\<open>NULL\<close> or the chain is empty; it returns no store, so it modifies nothing.
  On a well-formed chain it returns the first node, in the order of the ring from the head,
  whose key block equals the probe in its first \<open>key_size\<close> bytes, or \<^verbatim>\<open>NULL\<close> when there
  is none; the nodes it compares are distinct nodes of the chain, so each is visited at most
  once.
\<close>

theorem dll_search_key_scan:
  "dll_search_key_trace m head None ks cmp = Some (0, [])
   \<and> dll_search_key_trace m 0 ko ks cmp = Some (0, [])
   \<and> (ring m head ns \<longrightarrow>
         dll_search_key_trace m head (Some k) ks None
           = Some (first_match (\<lambda>a. take (unat ks) (key m a) = take (unat ks) k) ns,
                   compared (\<lambda>a. take (unat ks) (key m a) = take (unat ks) k) ns)
       \<and> dll_search_key m head (Some k) ks None
           = Some (first_match (\<lambda>a. take (unat ks) (key m a) = take (unat ks) k) ns)
       \<and> distinct (compared (\<lambda>a. take (unat ks) (key m a) = take (unat ks) k) ns)
       \<and> set (compared (\<lambda>a. take (unat ks) (key m a) = take (unat ks) k) ns) \<subseteq> set ns)"
proof (intro conjI impI)
  show "dll_search_key_trace m head None ks cmp = Some (0, [])"
    by (simp add: dll_search_key_trace_def)
  show "dll_search_key_trace m 0 ko ks cmp = Some (0, [])"
    by (simp add: dll_search_key_trace_def split: option.splits)
next
  assume r: "ring m head ns"
  let ?P = "\<lambda>a. take (unat ks) (key m a) = take (unat ks) k"
  show t: "dll_search_key_trace m head (Some k) ks None = Some (first_match ?P ns, compared ?P ns)"
    using dll_search_key_trace_ring[OF r, of k ks None]
    by (simp add: key_match_def memcmp_eq_def)
  show "dll_search_key m head (Some k) ks None = Some (first_match ?P ns)"
    by (simp add: dll_search_key_def t)
  show "distinct (compared ?P ns)"
    using r by (intro distinct_compared) (simp add: ring_def cyc_def)
  show "set (compared ?P ns) \<subseteq> set ns"
    by (rule set_compared)
qed

theorem dll_search_key_scan_witness:
  "ring mem_example 1 [1, 2]
   \<and> dll_search_key_trace mem_example 1 (Some [2, 0, 0, 0, 0, 0, 0, 0]) 8 None = Some (2, [1, 2])
   \<and> dll_search_key mem_example 1 (Some [2, 0, 0, 0, 0, 0, 0, 0]) 8 None = Some 2
   \<and> dll_search_key mem_example 1 (Some [3, 0, 0, 0, 0, 0, 0, 0]) 8 None = Some 0"
proof -
  have r: "ring mem_example 1 [1, 2]"
    by (simp add: ring_def cyc_def mem_example_def)
  have k: "key mem_example 1 = [1, 0, 0, 0, 0, 0, 0, 0]" "key mem_example 2 = [2, 0, 0, 0, 0, 0, 0, 0]"
    by (simp_all add: mem_example_def)
  note th = dll_search_key_scan[of mem_example 1 8 None None "[1, 2]"]
  have a: "dll_search_key_trace mem_example 1 (Some [2, 0, 0, 0, 0, 0, 0, 0]) 8 None
      = Some (2, [1, 2])"
    using th[of "[2, 0, 0, 0, 0, 0, 0, 0]"] r by (simp add: k)
  have b: "dll_search_key mem_example 1 (Some [2, 0, 0, 0, 0, 0, 0, 0]) 8 None = Some 2"
    using th[of "[2, 0, 0, 0, 0, 0, 0, 0]"] r by (simp add: k)
  have c: "dll_search_key mem_example 1 (Some [3, 0, 0, 0, 0, 0, 0, 0]) 8 None = Some 0"
    using th[of "[3, 0, 0, 0, 0, 0, 0, 0]"] r by (simp add: k)
  show ?thesis using r a b c by blast
qed


section \<open>Rings: linking and unlinking a node\<close>

lemma cyc_Nil [simp]: "cyc m []"
  by (simp add: cyc_def)

lemma cyc_rotate1: "cyc m ns \<Longrightarrow> cyc m (rotate1 ns)"
  by (simp add: cyc_def rotate1_map[symmetric])

lemma cyc_rotate: "cyc m ns \<Longrightarrow> cyc m (rotate n ns)"
  by (induction n) (simp_all add: cyc_rotate1)

lemma cyc_swap: "cyc m (xs @ ys) \<Longrightarrow> cyc m (ys @ xs)"
  using cyc_rotate[of m "xs @ ys" "length xs"] by (simp add: rotate_append)

lemma cyc_frame:
  assumes "cyc m ns"
    and "\<And>a. a \<in> set ns \<Longrightarrow> nxt m' a = nxt m a \<and> prev m' a = prev m a"
    and "set ns \<subseteq> live m'"
  shows "cyc m' ns"
proof -
  have "map (nxt m') ns = map (nxt m) ns"
    using assms(2) by (intro map_cong) simp_all
  moreover have "map (prev m') (rotate1 ns) = map (prev m) (rotate1 ns)"
    using assms(2) by (intro map_cong) simp_all
  ultimately show ?thesis using assms(1,3) unfolding cyc_def by metis
qed

lemma cyc_Cons_links:
  assumes "cyc m (n # rest)"
  shows "nxt m n = hd (rest @ [n])" and "prev m n = last (n # rest)"
    and "valid m n" and "n \<notin> set rest" and "map (nxt m) rest = tl (rest @ [n])"
proof -
  from assms have nx: "map (nxt m) (n # rest) = rest @ [n]"
    and pv: "map (prev m) (rest @ [n]) = n # rest"
    by (simp_all add: cyc_def)
  from nx show "nxt m n = hd (rest @ [n])" by (metis list.sel(1) list.simps(9))
  from nx show "map (nxt m) rest = tl (rest @ [n])" by (metis list.sel(3) list.simps(9))
  from pv have "last (map (prev m) (rest @ [n])) = last (n # rest)" by simp
  then show "prev m n = last (n # rest)" by (simp add: last_map)
  show "valid m n" using assms by (rule cyc_valid) simp
  show "n \<notin> set rest" using assms by (simp add: cyc_def)
qed

text \<open>Unlinking the first node of a ring of at least two nodes.\<close>

lemma cyc_unlink:
  assumes c: "cyc m (n # rest)" and ne: "rest \<noteq> []"
  shows "cyc (m\<lparr>prev := (prev m)(nxt m n := prev m n), nxt := (nxt m)(prev m n := nxt m n)\<rparr>) rest"
    and "nxt m n = hd rest" and "prev m n = last rest"
    and "nxt m n \<noteq> n" and "prev m n \<noteq> n"
proof -
  obtain r rs where rest: "rest = r # rs" using ne by (cases rest) auto
  obtain bs l where bl: "rest = bs @ [l]" using ne by (cases rest rule: rev_cases) auto
  from c have d: "distinct (n # rest)" and z: "0 \<notin> set rest" and lv: "set rest \<subseteq> live m"
    and nx: "map (nxt m) (n # rest) = rest @ [n]"
    and pv: "map (prev m) (rest @ [n]) = n # rest"
    by (simp_all add: cyc_def)
  have nn: "nxt m n = r" and nrs: "map (nxt m) (r # rs) = rs @ [n]"
    using nx by (simp_all add: rest)
  have pr: "prev m r = n" and prs: "map (prev m) (rs @ [n]) = r # rs"
    using pv by (simp_all add: rest)
  have pn: "prev m n = l"
    using cyc_Cons_links(2)[OF c] by (simp add: bl)
  have "map (nxt m) bs @ [nxt m l] = rs @ [n]"
    using nrs bl rest by (metis map_append list.simps(8,9))
  then have nbs: "map (nxt m) bs = rs" and nl: "nxt m l = n"
    by simp_all
  have "map (prev m) rs @ [prev m n] = bs @ [l]"
    using prs bl rest by (metis map_append list.simps(8,9))
  then have pbs: "map (prev m) rs = bs"
    by simp
  have lbs: "l \<notin> set bs"
    using d unfolding bl by simp
  have rrs: "r \<notin> set rs"
    using d unfolding rest by simp
  show "nxt m n = hd rest" by (simp add: nn rest)
  show "prev m n = last rest" by (simp add: pn bl)
  show "nxt m n \<noteq> n" using d by (auto simp: nn rest)
  show "prev m n \<noteq> n" using d by (auto simp: pn bl)
  let ?m = "m\<lparr>prev := (prev m)(nxt m n := prev m n), nxt := (nxt m)(prev m n := nxt m n)\<rparr>"
  have "map (nxt ?m) rest = map (nxt ?m) bs @ [nxt ?m l]" by (simp add: bl)
  also have "\<dots> = rs @ [r]" using lbs by (simp add: pn nn nbs)
  finally have a: "map (nxt ?m) rest = rotate1 rest" by (simp add: rest)
  have "map (prev ?m) (rotate1 rest) = map (prev ?m) rs @ [prev ?m r]" by (simp add: rest)
  also have "\<dots> = bs @ [l]" using rrs by (simp add: pn nn pbs)
  finally have b: "map (prev ?m) (rotate1 rest) = rest" by (simp add: bl)
  show "cyc ?m rest"
    using d z lv a b by (simp add: cyc_def)
qed

lemma cyc_single: "cyc m [n] \<Longrightarrow> prev m n = n \<and> nxt m n = n"
  by (simp add: cyc_def)

text \<open>Linking a node in front of a ring.\<close>

lemma cyc_link:
  assumes c: "cyc m (a # as)" and v: "valid m n" and nin: "n \<notin> set (a # as)"
  shows "cyc (m\<lparr>nxt := (nxt m)(n := a, prev m a := n), prev := (prev m)(n := prev m a, a := n)\<rparr>)
           (n # a # as)"
proof -
  obtain bs l where bl: "a # as = bs @ [l]" by (cases "a # as" rule: rev_cases) auto
  from c have d: "distinct (a # as)" and z: "0 \<notin> set (a # as)" and lv: "set (a # as) \<subseteq> live m"
    and nx: "map (nxt m) (a # as) = as @ [a]"
    and pv: "map (prev m) (as @ [a]) = a # as"
    by (simp_all add: cyc_def)
  have pa: "prev m a = l" using cyc_Cons_links(2)[OF c] by (simp add: bl)
  have "map (nxt m) bs @ [nxt m l] = as @ [a]"
    using nx bl by (metis map_append list.simps(8,9))
  then have nbs: "map (nxt m) bs = as"
    by simp
  have "map (prev m) as @ [prev m a] = bs @ [l]"
    using pv bl by (metis map_append list.simps(8,9))
  then have pas: "map (prev m) as = bs"
    by simp
  have lbs: "l \<notin> set bs" using d by (simp add: bl)
  have nl1: "n \<noteq> a" "n \<notin> set as" "a \<notin> set as"
    using nin d by auto
  have "n \<notin> set (bs @ [l])"
    using nin bl by metis
  then have nl2: "n \<noteq> l" "n \<notin> set bs"
    by auto
  note nl = nl2 nl1
  let ?m = "m\<lparr>nxt := (nxt m)(n := a, prev m a := n), prev := (prev m)(n := prev m a, a := n)\<rparr>"
  have "map (nxt ?m) (a # as) = map (nxt ?m) bs @ [nxt ?m l]" by (simp add: bl)
  also have "\<dots> = as @ [n]" using lbs nl by (simp add: pa nbs)
  finally have a: "map (nxt ?m) (n # a # as) = rotate1 (n # a # as)"
    using nl by (simp add: pa)
  have b: "map (prev ?m) (rotate1 (n # a # as)) = n # a # as"
    using nl by (simp add: pa pas bl[symmetric])
  show ?thesis
    using d z lv a b v nin by (simp add: cyc_def valid_def)
qed

lemma cyc_link_single:
  "valid m n \<Longrightarrow> cyc (m\<lparr>nxt := (nxt m)(n := n), prev := (prev m)(n := n)\<rparr>) [n]"
  by (simp add: cyc_def valid_def)

lemma ring_Nil [simp]: "ring m head [] \<longleftrightarrow> head = 0"
  by (simp add: ring_def)

lemma ring_Cons: "ring m head (a # as) \<longleftrightarrow> head = a \<and> cyc m (a # as)"
  by (auto simp: ring_def)

lemma ring_head_0: "ring m head ns \<Longrightarrow> head = 0 \<longleftrightarrow> ns = []"
  by (cases ns) (auto simp: ring_def cyc_def)

lemma ring_frame:
  assumes "ring m head ns"
    and "\<And>a. a \<in> set ns \<Longrightarrow> nxt m' a = nxt m a \<and> prev m' a = prev m a"
    and "set ns \<subseteq> live m'"
  shows "ring m' head ns"
  using assms cyc_frame[of m ns m'] by (simp add: ring_def)

lemma dll_prepend_ring:
  assumes r: "ring m head ns" and v: "valid m n" and nin: "n \<notin> set ns"
  shows "\<exists>m'. dll_prepend m head n = Some (m', n) \<and> ring m' n (n # ns)
        \<and> live m' = live m \<and> key m' = key m \<and> elt m' = elt m \<and> freed m' = freed m
        \<and> (\<forall>x. x \<notin> set (n # ns) \<longrightarrow> nxt m' x = nxt m x \<and> prev m' x = prev m x)"
proof (cases ns)
  case Nil
  then have h: "head = 0" using r by simp
  show ?thesis
    using v cyc_link_single[OF v]
    by (simp add: dll_prepend_def h Nil ring_Cons Let_def)
next
  case (Cons a as)
  then have h: "head = a" and c: "cyc m (a # as)" using r by (simp_all add: ring_Cons)
  have va: "valid m a" using c by (rule cyc_valid) simp
  have "prev m a = last (a # as)" using c by (rule cyc_Cons_links)
  then have "prev m a \<in> set (a # as)" using last_in_set[of "a # as"] by simp
  then have vl: "valid m (prev m a)" and pl: "prev m a \<in> set (a # as)"
    using cyc_valid[OF c] by simp_all
  have a0: "a \<noteq> 0" using va by (simp add: valid_def)
  have na: "n \<noteq> a" and npa: "n \<noteq> prev m a"
    using nin pl Cons by auto
  let ?m = "m\<lparr>nxt := (nxt m)(n := a, prev m a := n), prev := (prev m)(n := prev m a, a := n)\<rparr>"
  have eq: "dll_prepend m head n = Some (?m, n)"
    using v va vl a0 na npa
    by (simp add: dll_prepend_def h Let_def valid_def)
  have cl: "cyc ?m (n # a # as)"
    using c v nin unfolding Cons by (rule cyc_link)
  have fr: "\<forall>x. x \<notin> set (n # ns) \<longrightarrow> nxt ?m x = nxt m x \<and> prev ?m x = prev m x"
    using pl Cons by auto
  show ?thesis
    using eq cl fr by (simp add: ring_Cons Cons)
qed

lemma dll_prepend_new_ring:
  assumes ok: "malloc_ok malloc" and r: "ring m head ns"
    and al: "malloc (live m) (unat ks + unat es) = Some n"
  shows "\<exists>m'. dll_prepend_new malloc m head k e ks es = Some (m', n) \<and> ring m' n (n # ns)
        \<and> live m' = insert n (live m)
        \<and> key m' = (key m)(n := take (unat ks) k)
        \<and> elt m' = (elt m)(n := take (unat es) e)
        \<and> freed m' = freed m
        \<and> (\<forall>x. x \<notin> set (n # ns) \<longrightarrow> nxt m' x = nxt m x \<and> prev m' x = prev m x)"
proof -
  have n0: "n \<noteq> 0" and nl: "n \<notin> live m"
    using ok al by (auto simp: malloc_ok_def)
  have sub: "set ns \<subseteq> live m"
    using r by (simp add: ring_def cyc_def)
  then have nin: "n \<notin> set ns" using nl by auto
  define m0 where "m0 = m\<lparr>live := insert n (live m),
      key := (key m)(n := take (unat ks) k), elt := (elt m)(n := take (unat es) e)\<rparr>"
  have r0: "ring m0 head ns"
    using sub by (intro ring_frame[OF r]) (auto simp: m0_def)
  have v0: "valid m0 n" using n0 by (simp add: valid_def m0_def)
  from dll_prepend_ring[OF r0 v0 nin] obtain m' where
    p: "dll_prepend m0 head n = Some (m', n)" and r': "ring m' n (n # ns)"
    and f: "live m' = live m0" "key m' = key m0" "elt m' = elt m0" "freed m' = freed m0"
      "\<forall>x. x \<notin> set (n # ns) \<longrightarrow> nxt m' x = nxt m0 x \<and> prev m' x = prev m0 x"
    by blast
  have "dll_prepend_new malloc m head k e ks es = dll_prepend m0 head n"
    using v0 by (simp add: dll_prepend_new_def dll_prepend_def al Let_def m0_def memcpy_def valid_def)
  then show ?thesis
    using p r' f by (simp add: m0_def)
qed

text \<open>Unlinking a node anywhere in a ring: the links after the two writes of the source.\<close>

lemma cyc_unlink_any:
  assumes c: "cyc m (xs @ n # ys)" and ne: "xs @ ys \<noteq> []"
  shows "cyc (m\<lparr>prev := (prev m)(nxt m n := prev m n), nxt := (nxt m)(prev m n := nxt m n)\<rparr>)
           (xs @ ys)"
    and "nxt m n = hd (ys @ xs)" and "nxt m n \<in> set (xs @ ys)" and "prev m n \<in> set (xs @ ys)"
    and "nxt m n \<noteq> n" and "prev m n \<noteq> n"
proof -
  have c': "cyc m (n # ys @ xs)"
    using cyc_swap[OF c] by simp
  have ne': "ys @ xs \<noteq> []" using ne by auto
  note u = cyc_unlink[OF c' ne']
  show "cyc (m\<lparr>prev := (prev m)(nxt m n := prev m n), nxt := (nxt m)(prev m n := nxt m n)\<rparr>)
      (xs @ ys)"
    using cyc_swap[OF u(1)] .
  show "nxt m n = hd (ys @ xs)" by (rule u(2))
  show "nxt m n \<in> set (xs @ ys)"
    using u(2) hd_in_set[OF ne'] by auto
  show "prev m n \<in> set (xs @ ys)"
    using u(3) last_in_set[OF ne'] by auto
  show "nxt m n \<noteq> n" "prev m n \<noteq> n" by (rule u(4), rule u(5))
qed

lemma cyc_drop_live:
  assumes "cyc m ns" and "n \<notin> set ns"
  shows "cyc (m\<lparr>live := live m - {n}\<rparr>) ns"
  using assms by (auto simp: cyc_def)

lemma dll_remove_ring:
  assumes r: "ring m head ns" and mem: "n \<in> set ns"
  shows "\<exists>m' head'. dll_remove m head n = Some (m', head') \<and> ring m' head' (remove1 n ns)
        \<and> live m' = live m \<and> key m' = key m \<and> elt m' = elt m \<and> freed m' = freed m
        \<and> (\<forall>x. x \<notin> set ns \<longrightarrow> nxt m' x = nxt m x \<and> prev m' x = prev m x)"
proof -
  from r have c: "cyc m ns" by (simp add: ring_def)
  obtain xs ys where ns: "ns = xs @ n # ys" using mem by (meson split_list)
  have d: "distinct ns" using c by (simp add: cyc_def)
  have rm: "remove1 n ns = xs @ ys"
    using d by (simp add: ns remove1_append)
  have v: "valid m n" using c mem by (rule cyc_valid)
  have n0: "n \<noteq> 0" using v by (simp add: valid_def)
  have h0: "head \<noteq> 0" using ring_head_0[OF r] mem by auto
  have hd: "head = hd ns" using r mem by (cases ns) (auto simp: ring_def)
  show ?thesis
  proof (cases "xs @ ys = []")
    case True
    then have "cyc m [n]" using c ns by simp
    then have "prev m n = n \<and> nxt m n = n" by (rule cyc_single)
    then show ?thesis
      using v n0 h0 True by (simp add: dll_remove_def rm)
  next
    case False
    note u = cyc_unlink_any[OF c[unfolded ns] False]
    let ?m = "m\<lparr>prev := (prev m)(nxt m n := prev m n), nxt := (nxt m)(prev m n := nxt m n)\<rparr>"
    have sub: "set (xs @ ys) \<subseteq> set ns" by (auto simp: ns)
    have vn: "valid m (nxt m n)" "valid m (prev m n)"
      using u(3,4) sub cyc_valid[OF c] by blast+
    let ?h = "if head = n then nxt m n else head"
    have eq: "dll_remove m head n = Some (?m, ?h)"
      using v n0 h0 vn u(5,6) by (simp add: dll_remove_def Let_def)
    have hh: "?h = (case xs @ ys of [] \<Rightarrow> 0 | a # _ \<Rightarrow> a)"
    proof (cases xs)
      case Nil
      then have "head = n" using hd ns by simp
      moreover have "ys \<noteq> []" using False Nil by simp
      ultimately show ?thesis using u(2) Nil by (cases ys) simp_all
    next
      case (Cons x xs')
      then have "head = x" using hd ns by simp
      moreover have "x \<noteq> n" using d ns Cons by auto
      ultimately show ?thesis using Cons by simp
    qed
    have rg: "ring ?m ?h (remove1 n ns)"
      using u(1) hh by (simp add: ring_def rm)
    have fr: "\<forall>x. x \<notin> set ns \<longrightarrow> nxt ?m x = nxt m x \<and> prev ?m x = prev m x"
      using u(3,4) sub by auto
    show ?thesis using eq rg fr by simp
  qed
qed

lemma run_free_elt_fields [simp]:
  "live (run_free_elt fe m n) = live m"
  "key (run_free_elt fe m n) = key m"
  "nxt (run_free_elt fe m n) = nxt m"
  "prev (run_free_elt fe m n) = prev m"
  "valid (run_free_elt fe m n) x = valid m x"
  by (simp_all add: run_free_elt_def valid_def split: option.splits)

lemma run_free_elt_None [simp]: "run_free_elt None m n = m"
  by (simp add: run_free_elt_def)

lemma dll_delete_remove:
  "dll_delete m head n fe =
     (case dll_remove (run_free_elt fe m n) head n of
        None \<Rightarrow> None
      | Some (m', head') \<Rightarrow>
          if head = 0 \<or> n = 0 then Some (m, head)
          else Some (m'\<lparr>live := live m' - {n}\<rparr>, head'))"
  by (simp add: dll_delete_def dll_remove_def Let_def)

lemma dll_delete_ring:
  assumes r: "ring m head ns" and mem: "n \<in> set ns"
  shows "\<exists>m' head'. dll_delete m head n fe = Some (m', head') \<and> ring m' head' (remove1 n ns)
        \<and> live m' = live m - {n} \<and> key m' = key m
        \<and> elt m' = elt (run_free_elt fe m n) \<and> freed m' = freed (run_free_elt fe m n)
        \<and> (\<forall>x. x \<notin> set ns \<longrightarrow> nxt m' x = nxt m x \<and> prev m' x = prev m x)"
proof -
  let ?m0 = "run_free_elt fe m n"
  have sub: "set ns \<subseteq> live m" using r by (simp add: ring_def cyc_def)
  have r0: "ring ?m0 head ns"
    using sub by (intro ring_frame[OF r]) simp_all
  from dll_remove_ring[OF r0 mem] obtain m1 head' where
    rm: "dll_remove ?m0 head n = Some (m1, head')" and r1: "ring m1 head' (remove1 n ns)"
    and f: "live m1 = live ?m0" "key m1 = key ?m0" "elt m1 = elt ?m0" "freed m1 = freed ?m0"
      "\<forall>x. x \<notin> set ns \<longrightarrow> nxt m1 x = nxt ?m0 x \<and> prev m1 x = prev ?m0 x"
    by blast
  have d: "distinct ns" using r by (simp add: ring_def cyc_def)
  have n0: "n \<noteq> 0" using r mem by (auto simp: ring_def cyc_def)
  have h0: "head \<noteq> 0" using ring_head_0[OF r] mem by auto
  have nin: "n \<notin> set (remove1 n ns)" using d by simp
  have "cyc (m1\<lparr>live := live m1 - {n}\<rparr>) (remove1 n ns)"
    using r1 nin by (intro cyc_drop_live) (simp_all add: ring_def)
  then have r2: "ring (m1\<lparr>live := live m1 - {n}\<rparr>) head' (remove1 n ns)"
    using r1 by (simp add: ring_def)
  have "dll_delete m head n fe = Some (m1\<lparr>live := live m1 - {n}\<rparr>, head')"
    using rm n0 h0 by (simp add: dll_delete_remove)
  then show ?thesis using r2 f by simp
qed


section \<open>Climbing the ladder\<close>

lemma ladder_steps: "list_all ladder_step_ok [0..<54]"
  unfolding ladder_eq ladder_step_ok_def
  by (simp add: upt_rec C_PARTS_PER_PRIME_def C_PARTS_ACC_COUNTS_def C_PRIME_PARTS_COUNT_def)

lemma ladder_step:
  assumes "i < length ladder" and "ladder ! i = (s, c)"
  shows "C_PARTS_PER_PRIME ! (c - 1) = c"
    and "Suc i < length ladder \<Longrightarrow> s + c \<noteq> C_PRIME_PARTS_COUNT"
    and "Suc i < length ladder \<Longrightarrow> fst (ladder ! Suc i) = s + c"
    and "Suc i < length ladder \<Longrightarrow>
          snd (ladder ! Suc i) = (if s + c = C_PARTS_ACC_COUNTS ! (c - 1) then c + 1 else c)"
    and "\<not> Suc i < length ladder \<Longrightarrow> s + c = C_PRIME_PARTS_COUNT"
proof -
  have "ladder_step_ok i"
    using ladder_steps assms(1) by (simp add: list_all_iff len_ladder)
  then have *: "C_PARTS_PER_PRIME ! (c - 1) = c
      \<and> (if Suc i < length ladder then
            s + c \<noteq> C_PRIME_PARTS_COUNT \<and> fst (ladder ! Suc i) = s + c
            \<and> snd (ladder ! Suc i) = (if s + c = C_PARTS_ACC_COUNTS ! (c - 1) then c + 1 else c)
          else s + c = C_PRIME_PARTS_COUNT)"
    by (simp add: ladder_step_ok_def assms(2))
  show "C_PARTS_PER_PRIME ! (c - 1) = c" using * by blast
  show "Suc i < length ladder \<Longrightarrow> s + c \<noteq> C_PRIME_PARTS_COUNT" using * by presburger
  show "Suc i < length ladder \<Longrightarrow> fst (ladder ! Suc i) = s + c" using * by presburger
  show "Suc i < length ladder \<Longrightarrow>
          snd (ladder ! Suc i) = (if s + c = C_PARTS_ACC_COUNTS ! (c - 1) then c + 1 else c)"
    using * by presburger
  show "\<not> Suc i < length ladder \<Longrightarrow> s + c = C_PRIME_PARTS_COUNT" using * by presburger
qed

lemma ladder_prime:
  assumes ok: "size_t_ok TYPE('a::len)"
    and i: "i < length ladder" and pos: "ladder ! i = (s, c)"
  shows "is_overflow (of_nat s :: 'a word) (of_nat c) = Some (LENGTH('a) < ladder_bits i)"
    and "build_prime (of_nat s :: 'a word) (of_nat c) = Some (of_nat (C_PRIMES ! i))"
    and "C_PRIMES ! i < 2 ^ ladder_bits i" and "2 ^ ladder_bits i \<le> 2 * C_PRIMES ! i"
    and "1 \<le> c" and "c \<le> 4" and "s + c \<le> length C_PRIME_PARTS"
    and "C_PRIMES ! i = (\<Sum>j<c. C_PRIME_PARTS ! (s + j) * 2 ^ (j * 16))"
    and "\<And>j. j < c \<Longrightarrow> C_PRIME_PARTS ! (s + j) < 2 ^ 16"
proof -
  have W: "16 \<le> LENGTH('a)" using ok by (simp add: size_t_ok_def)
  note row = ladder_row[OF i pos, unfolded ladder_row_ok_def prod.case]
  show c: "1 \<le> c" "c \<le> 4" and range: "s + c \<le> length C_PRIME_PARTS"
    using row by blast+
  have "list_all (\<lambda>j. C_PRIME_PARTS ! (s + j) < 2 ^ 16) [0..<c]"
    using row by blast
  then show parts: "C_PRIME_PARTS ! (s + j) < 2 ^ 16" if "j < c" for j
    using that by (simp add: list_all_iff)
  have "C_PRIMES ! i = sum_list (map (\<lambda>j. C_PRIME_PARTS ! (s + j) * 2 ^ (j * 16)) [0..<c])"
    using row by blast
  then show val: "C_PRIMES ! i = (\<Sum>j<c. C_PRIME_PARTS ! (s + j) * 2 ^ (j * 16))"
    by (simp only: sum_list_upt_sum)
  have lb: "ladder_bits i = bitlen (C_PRIME_PARTS ! (s + (c - 1))) + (c - 1) * 16"
    by (simp add: ladder_bits_def pos)
  show "C_PRIMES ! i < 2 ^ ladder_bits i" "2 ^ ladder_bits i \<le> 2 * C_PRIMES ! i"
    unfolding lb using row by blast+
  have top: "C_PRIME_PARTS ! (s + (c - 1)) < 2 ^ 16"
    using parts[of "c - 1"] c by simp
  show "is_overflow (of_nat s :: 'a word) (of_nat c) = Some (LENGTH('a) < ladder_bits i)"
    unfolding lb by (rule is_overflow_of_nat[OF ok c range top])
  have ucnt: "unat (of_nat c :: 'a word) = c"
    using c by (intro unat_of_nat_small[OF W]) simp
  have "build_prime_from (of_nat s :: 'a word) c 0 (of_nat 0)
      = Some (of_nat (0 + (\<Sum>j<c. C_PRIME_PARTS ! (s + 0 + j) * 2 ^ ((0 + j) * 16))))"
    using range parts by (intro build_prime_from_of_nat[OF W]) simp_all
  then show "build_prime (of_nat s :: 'a word) (of_nat c) = Some (of_nat (C_PRIMES ! i))"
    by (simp add: build_prime_def ucnt val)
qed

lemma of_nat_eq_small:
  assumes "16 \<le> LENGTH('a::len)" and "a < 65536" and "b < 65536"
  shows "(of_nat a :: 'a word) = of_nat b \<longleftrightarrow> a = b"
  using unat_of_nat_small[OF assms(1,2)] unat_of_nat_small[OF assms(1,3)] by metis

lemma incr_count_at:
  fixes ht :: "'a::len ht_divchn"
  assumes ok: "size_t_ok TYPE('a)" and at: "ladder_at ht i"
  shows "\<exists>b ht'. incr_count ht = Some (b, ht') \<and> same_rest ht ht' \<and>
     (if b then ladder_at ht' (Suc i)
           \<and> max_num_elts ht' = mul_alpha_sz_max (count ht') (alpha_n ht) (log_alpha_d ht)
      else saturated ht' \<and> count ht' = count ht \<and> max_num_elts ht' = max_num_elts ht
           \<and> (Suc i < length ladder \<longrightarrow> LENGTH('a) < ladder_bits (Suc i)))"
proof -
  have W: "16 \<le> LENGTH('a)" using ok by (simp add: size_t_ok_def)
  obtain s c where pos: "ladder ! i = (s, c)" by (cases "ladder ! i")
  from at have i: "i < length ladder" and cix: "unat (count_ix ht) = s"
    and gix: "Suc (unat (group_ix ht)) = c"
    by (simp_all add: ladder_at_def pos)
  note lp = ladder_prime[OF ok i pos]
  note ls = ladder_step[OF i pos]
  have c: "1 \<le> c" "c \<le> 4" and range: "s + c \<le> 150"
    using lp(5,6,7) by (simp_all add: len_parts)
  define gi where "gi = c - 1"
  have g: "unat (group_ix ht) = gi" using gix by (simp add: gi_def)
  have gi4: "gi < 4" using c by (simp add: gi_def)
  have cw: "count_ix ht = of_nat s" using cix[symmetric] by simp
  have pg: "C_PARTS_PER_PRIME ! gi = c" using ls(1) by (simp add: gi_def)
  have lpp: "length C_PARTS_PER_PRIME = 4" "length C_PARTS_ACC_COUNTS = 4"
    by (simp_all add: C_PARTS_PER_PRIME_def C_PARTS_ACC_COUNTS_def)
  have ppp: "tab C_PARTS_PER_PRIME (group_ix ht) = Some (of_nat c)"
    using gi4 by (simp add: tab_def g pg lpp)
  define av where "av = C_PARTS_ACC_COUNTS ! gi"
  have acc_small: "av < 65536"
    using gi4 unfolding av_def
    by (cases gi rule: nat.exhaust; simp add: C_PARTS_ACC_COUNTS_def nth_Cons')
  have acc: "tab C_PARTS_ACC_COUNTS (group_ix ht) = Some (of_nat av)"
    using gi4 by (simp add: tab_def g av_def lpp)
  define A where "A \<longleftrightarrow> s + c = av"
  define x where "x = count_ix ht + of_nat c"
  have xo: "x = of_nat (s + c)" by (simp add: x_def cw)
  have Aw: "x = of_nat av \<longleftrightarrow> A"
    unfolding A_def xo using range acc_small by (intro of_nat_eq_small[OF W]) simp_all
  have Bw: "x = of_nat C_PRIME_PARTS_COUNT \<longleftrightarrow> s + c = 150"
    unfolding xo C_PRIME_PARTS_COUNT_def
    using range of_nat_eq_small[OF W, of "s + c" 150] by simp
  have ux: "unat x = s + c"
    unfolding xo using range by (intro unat_of_nat_small[OF W]) simp
  define ht2 where "ht2 = (if A then ht\<lparr>count_ix := x, group_ix := group_ix ht + 1\<rparr>
                           else ht\<lparr>count_ix := x\<rparr>)"
  have ht2c: "count_ix ht2 = x" "count ht2 = count ht"
    "max_num_elts ht2 = max_num_elts ht" "alpha_n ht2 = alpha_n ht" "log_alpha_d ht2 = log_alpha_d ht"
    by (simp_all add: ht2_def)
  have unf: "incr_count ht =
      (if s + c = 150 then Some (False, ht2)
       else case tab C_PARTS_PER_PRIME (group_ix ht2) of
              None \<Rightarrow> None
            | Some ppp \<Rightarrow>
                (case is_overflow (count_ix ht2) ppp of
                   None \<Rightarrow> None
                 | Some True \<Rightarrow> Some (False, ht2\<lparr>count_ix := C_SIZE_MAX\<rparr>)
                 | Some False \<Rightarrow>
                     (case build_prime (count_ix ht2) ppp of
                        None \<Rightarrow> None
                      | Some p \<Rightarrow> Some (True, ht2\<lparr>count := p,
                           max_num_elts := mul_alpha_sz_max p (alpha_n ht) (log_alpha_d ht)\<rparr>))))"
  proof (cases A)
    case True
    then show ?thesis
      by (simp add: incr_count_def ppp acc x_def[symmetric] Aw Bw Let_def ht2_def
          cong: option.case_cong bool.case_cong)
  next
    case False
    then show ?thesis
      by (simp add: incr_count_def ppp acc x_def[symmetric] Aw Bw Let_def ht2_def
          cong: option.case_cong bool.case_cong)
  qed
  have sr2: "same_rest ht ht2" by (simp add: same_rest_def ht2_def)
  show ?thesis
  proof (cases "Suc i < length ladder")
    case False
    then have "s + c = 150" using ls(5) by (simp add: C_PRIME_PARTS_COUNT_def)
    then have "incr_count ht = Some (False, ht2)" by (simp add: unf)
    moreover have "saturated ht2"
      using \<open>s + c = 150\<close> Bw by (simp add: saturated_def ht2c)
    ultimately show ?thesis using sr2 False by (auto simp: ht2c)
  next
    case True
    obtain s' c' where pos': "ladder ! Suc i = (s', c')" by (cases "ladder ! Suc i")
    have ne: "s + c \<noteq> 150" using ls(2)[OF True] by (simp add: C_PRIME_PARTS_COUNT_def)
    have s': "s' = s + c" using ls(3)[OF True] by (simp add: pos')
    have c': "c' = (if A then c + 1 else c)"
      using ls(4)[OF True] by (simp add: pos' A_def av_def gi_def)
    note lp' = ladder_prime[OF ok True pos']
    note ls' = ladder_step[OF True pos']
    have c'b: "1 \<le> c'" "c' \<le> 4" using lp'(5,6) .
    have "unat (group_ix ht + 1) = c" if A
    proof -
      have "c + 1 \<le> 4" using c'b c' that by simp
      then have "unat (group_ix ht) + unat (1 :: 'a word) < 2 ^ LENGTH('a)"
        using g power_increasing[OF W, of "2::nat"] by (simp add: gi_def)
      then show ?thesis using g c by (simp add: unat_add_lem[THEN iffD1] gi_def)
    qed
    then have g2': "unat (group_ix ht2) = c' - 1"
      using g c' by (simp add: ht2_def gi_def)
    define gi' where "gi' = c' - 1"
    have g2: "unat (group_ix ht2) = gi'" using g2' by (simp add: gi'_def)
    have gi'4: "gi' < 4" using c'b by (simp add: gi'_def)
    have pg': "C_PARTS_PER_PRIME ! gi' = c'" using ls'(1) by (simp add: gi'_def)
    have ppp2: "tab C_PARTS_PER_PRIME (group_ix ht2) = Some (of_nat c')"
      using gi'4 by (simp add: tab_def g2 pg' lpp)
    have ov: "is_overflow (count_ix ht2) (of_nat c') = Some (LENGTH('a) < ladder_bits (Suc i))"
      using lp'(1) by (simp only: ht2c xo s')
    have bp: "build_prime (count_ix ht2) (of_nat c') = Some (of_nat (C_PRIMES ! Suc i))"
      using lp'(2) by (simp only: ht2c xo s')
    show ?thesis
    proof (cases "LENGTH('a) < ladder_bits (Suc i)")
      case ovf: True
      have "incr_count ht = Some (False, ht2\<lparr>count_ix := C_SIZE_MAX\<rparr>)"
        using ovf ne by (simp add: unf ppp2 ov)
      moreover have "saturated (ht2\<lparr>count_ix := C_SIZE_MAX\<rparr>)" by (simp add: saturated_def)
      moreover have "same_rest ht (ht2\<lparr>count_ix := C_SIZE_MAX\<rparr>)"
        by (simp add: same_rest_def ht2_def)
      ultimately show ?thesis using ovf by (auto simp: ht2c)
    next
      case nov: False
      let ?ht3 = "ht2\<lparr>count := of_nat (C_PRIMES ! Suc i),
          max_num_elts := mul_alpha_sz_max (of_nat (C_PRIMES ! Suc i)) (alpha_n ht) (log_alpha_d ht)\<rparr>"
      have eq: "incr_count ht = Some (True, ?ht3)"
        using nov ne by (simp add: unf ppp2 ov bp)
      have "ladder_bits (Suc i) \<le> LENGTH('a)" using nov by simp
      then have "(2::nat) ^ ladder_bits (Suc i) \<le> 2 ^ LENGTH('a)"
        by (rule power_increasing) simp
      then have fits: "C_PRIMES ! Suc i < 2 ^ LENGTH('a)"
        using lp'(3) by (rule less_le_trans[rotated])
      have "ladder_at ?ht3 (Suc i)"
        using True fits c'b by (simp add: ladder_at_def pos' ht2c ux s' g2')
      moreover have "same_rest ht ?ht3" by (simp add: same_rest_def ht2_def)
      ultimately show ?thesis using eq by auto
    qed
  qed
qed

lemma same_rest_refl [simp]: "same_rest ht ht"
  by (simp add: same_rest_def)

lemma same_rest_trans: "same_rest a b \<Longrightarrow> same_rest b c \<Longrightarrow> same_rest a c"
  by (simp add: same_rest_def)

lemma ladder_at_count_nz:
  assumes ok: "size_t_ok TYPE('a::len)" and at: "ladder_at (ht :: 'a ht_divchn) i"
  shows "count ht \<noteq> 0" and "unat (count ht) = C_PRIMES ! i" and "0 < C_PRIMES ! i"
proof -
  obtain s c where pos: "ladder ! i = (s, c)" by (cases "ladder ! i")
  from at have i: "i < length ladder" and cnt: "count ht = of_nat (C_PRIMES ! i)"
    and fits: "C_PRIMES ! i < 2 ^ LENGTH('a)"
    by (simp_all add: ladder_at_def)
  note lp = ladder_prime[OF ok i pos]
  have "(1::nat) \<le> 2 ^ ladder_bits i" by simp
  then show p: "0 < C_PRIMES ! i" using lp(4) by linarith
  show u: "unat (count ht) = C_PRIMES ! i" using fits by (simp add: cnt unat_of_nat)
  show "count ht \<noteq> 0" using u p by auto
qed

lemma incr_count_while_at:
  fixes ht :: "'a::len ht_divchn"
  assumes ok: "size_t_ok TYPE('a)"
  shows "ladder_at ht i \<Longrightarrow>
    \<exists>ht'. incr_count_while n ht = Some ht' \<and> same_rest ht ht' \<and> count ht' \<noteq> 0
       \<and> (saturated ht' \<or> (\<exists>j. ladder_at ht' j))
       \<and> (\<not> max_num_elts ht' < n \<or> saturated ht')"
proof (induction "length ladder - i" arbitrary: ht i)
  case 0
  then show ?case by (simp add: ladder_at_def)
next
  case (Suc d)
  note at = Suc.prems
  show ?case
  proof (cases "max_num_elts ht < n")
    case False
    then have "incr_count_while n ht = Some ht"
      by (subst incr_count_while.simps) simp
    then show ?thesis
      using False at ladder_at_count_nz(1)[OF ok at] by auto
  next
    case True
    from incr_count_at[OF ok at] obtain b ht1 where
      ic: "incr_count ht = Some (b, ht1)" and sr: "same_rest ht ht1"
      and res: "if b then ladder_at ht1 (Suc i)
           \<and> max_num_elts ht1 = mul_alpha_sz_max (count ht1) (alpha_n ht) (log_alpha_d ht)
        else saturated ht1 \<and> count ht1 = count ht \<and> max_num_elts ht1 = max_num_elts ht
           \<and> (Suc i < length ladder \<longrightarrow> LENGTH('a) < ladder_bits (Suc i))"
      by blast
    have unf: "incr_count_while n ht = (if b then incr_count_while n ht1 else Some ht1)"
      using True by (subst incr_count_while.simps) (simp add: ic)
    show ?thesis
    proof (cases b)
      case False
      then have "saturated ht1" "count ht1 = count ht" using res by simp_all
      then show ?thesis
        using unf False sr ladder_at_count_nz(1)[OF ok at] by auto
    next
      case b: True
      then have at1: "ladder_at ht1 (Suc i)" using res by simp
      then have "Suc i < length ladder" by (simp add: ladder_at_def)
      then have "d = length ladder - Suc i" using Suc.hyps(2) by simp
      from Suc.hyps(1)[OF this at1] obtain ht' where
        w: "incr_count_while n ht1 = Some ht'" and sr': "same_rest ht1 ht'"
        and rest: "count ht' \<noteq> 0" "saturated ht' \<or> (\<exists>j. ladder_at ht' j)"
          "\<not> max_num_elts ht' < n \<or> saturated ht'"
        by blast
      show ?thesis
        using unf b w same_rest_trans[OF sr sr'] rest by auto
    qed
  qed
qed


section \<open>The chains of a table\<close>

lemma ring_nodes: "ring m h c \<Longrightarrow> set c \<subseteq> live m \<and> 0 \<notin> set c \<and> distinct c"
  by (simp add: ring_def cyc_def)

lemma chains_nodes:
  assumes "chains m hs cs"
  shows "set (concat cs) \<subseteq> live m" and "0 \<notin> set (concat cs)"
proof -
  have "\<And>c. c \<in> set cs \<Longrightarrow> set c \<subseteq> live m \<and> 0 \<notin> set c"
  proof -
    fix c assume "c \<in> set cs"
    then obtain j where "j < length cs" "cs ! j = c" by (auto simp: in_set_conv_nth)
    then have "ring m (hs ! j) c"
      using assms by (auto simp: chains_def list_all2_conv_all_nth)
    then show "set c \<subseteq> live m \<and> 0 \<notin> set c" using ring_nodes by blast
  qed
  then show "set (concat cs) \<subseteq> live m" and "0 \<notin> set (concat cs)" by auto
qed

lemma chains_length: "chains m hs cs \<Longrightarrow> length hs = length cs"
  by (auto simp: chains_def dest: list_all2_lengthD)

lemma chains_nth: "chains m hs cs \<Longrightarrow> j < length cs \<Longrightarrow> ring m (hs ! j) (cs ! j)"
  by (simp add: chains_def list_all2_conv_all_nth)

lemma list_all2_ring_frame:
  assumes "list_all2 (ring m) hs cs"
    and "\<And>x. x \<in> set (concat cs) \<Longrightarrow> nxt m' x = nxt m x \<and> prev m' x = prev m x \<and> x \<in> live m'"
  shows "list_all2 (ring m') hs cs"
  using assms(1)
proof (rule list.rel_mono_strong)
  fix h c assume "h \<in> set hs" "c \<in> set cs" "ring m h c"
  then show "ring m' h c"
    using assms(2) by (intro ring_frame[of m h c m']) auto
qed

lemma chains_mid:
  assumes ch: "chains m (hs1 @ h # hs2) (cs1 @ c # cs2)" and len: "length hs1 = length cs1"
    and r': "ring m' h' c'"
    and frame: "\<And>x. x \<in> set (concat cs1) \<union> set (concat cs2)
                  \<Longrightarrow> nxt m' x = nxt m x \<and> prev m' x = prev m x \<and> x \<in> live m'"
    and new: "set c' \<inter> (set (concat cs1) \<union> set (concat cs2)) = {}"
  shows "chains m' (hs1 @ h' # hs2) (cs1 @ c' # cs2)"
proof -
  from ch len have a1: "list_all2 (ring m) hs1 cs1" and a2: "list_all2 (ring m) hs2 cs2"
    and d: "distinct (concat (cs1 @ c # cs2))"
    by (simp_all add: chains_def list_all2_append)
  have b1: "list_all2 (ring m') hs1 cs1"
    using a1 frame by (rule list_all2_ring_frame) simp
  have b2: "list_all2 (ring m') hs2 cs2"
    using a2 frame by (rule list_all2_ring_frame) simp
  have dc: "distinct c'" using r' ring_nodes by blast
  have "distinct (concat (cs1 @ c' # cs2))"
    using d dc new by auto
  then show ?thesis
    using b1 b2 r' len by (simp add: chains_def list_all2_append)
qed

lemma chains_split:
  assumes "chains m hs cs" and "j < length cs"
  shows "hs = take j hs @ hs ! j # drop (Suc j) hs"
    and "cs = take j cs @ cs ! j # drop (Suc j) cs"
    and "length (take j hs) = length (take j cs)"
    and "chains m (take j hs @ hs ! j # drop (Suc j) hs) (take j cs @ cs ! j # drop (Suc j) cs)"
    and "set (cs ! j) \<inter> (set (concat (take j cs)) \<union> set (concat (drop (Suc j) cs))) = {}"
proof -
  have l: "length hs = length cs" using assms(1) by (rule chains_length)
  show 1: "hs = take j hs @ hs ! j # drop (Suc j) hs"
    using assms(2) l by (simp add: id_take_nth_drop)
  show 2: "cs = take j cs @ cs ! j # drop (Suc j) cs"
    using assms(2) by (simp add: id_take_nth_drop)
  show "length (take j hs) = length (take j cs)" using l by simp
  show "chains m (take j hs @ hs ! j # drop (Suc j) hs) (take j cs @ cs ! j # drop (Suc j) cs)"
    using assms(1) 1 2 by simp
  have "distinct (concat (take j cs @ cs ! j # drop (Suc j) cs))"
    using assms(1) 2 by (simp add: chains_def)
  then show "set (cs ! j) \<inter> (set (concat (take j cs)) \<union> set (concat (drop (Suc j) cs))) = {}"
    by auto
qed

lemma chains_update:
  assumes ch: "chains m hs cs" and j: "j < length cs"
    and r': "ring m' h' c'"
    and frame: "\<And>x. x \<in> set (concat cs) \<Longrightarrow> x \<notin> A
                  \<Longrightarrow> nxt m' x = nxt m x \<and> prev m' x = prev m x"
    and live: "set (concat cs) - set (cs ! j) \<subseteq> live m'"
    and A: "A \<inter> set (concat cs) \<subseteq> set (cs ! j)"
    and new: "set c' \<inter> set (concat cs) \<subseteq> set (cs ! j)"
  shows "chains m' (hs[j := h']) (cs[j := c'])"
proof -
  note sp = chains_split[OF ch j]
  have l: "length hs = length cs" using ch by (rule chains_length)
  have others: "set (concat (take j cs)) \<union> set (concat (drop (Suc j) cs)) \<subseteq> set (concat cs)"
    by (subst (3) sp(2)) auto
  have "chains m' (take j hs @ h' # drop (Suc j) hs) (take j cs @ c' # drop (Suc j) cs)"
  proof (rule chains_mid[OF sp(4) sp(3) r'])
    fix x assume x: "x \<in> set (concat (take j cs)) \<union> set (concat (drop (Suc j) cs))"
    then have xin: "x \<in> set (concat cs)" using others by blast
    have xj: "x \<notin> set (cs ! j)" using x sp(5) by blast
    then have "x \<notin> A" using A xin by blast
    then show "nxt m' x = nxt m x \<and> prev m' x = prev m x \<and> x \<in> live m'"
      using frame[OF xin] live xin xj by blast
  next
    show "set c' \<inter> (set (concat (take j cs)) \<union> set (concat (drop (Suc j) cs))) = {}"
      using new others sp(5) by blast
  qed
  then show ?thesis
    using j l by (simp add: upd_conv_take_nth_drop)
qed

lemma concat_update_set:
  assumes "j < length cs"
  shows "set (concat (cs[j := c'])) \<subseteq> set c' \<union> set (concat cs)"
    and "set c' \<subseteq> set (concat (cs[j := c']))"
    and "set (concat cs) \<subseteq> set (cs ! j) \<union> set (concat (cs[j := c']))"
    and "length (concat (cs[j := c'])) + length (cs ! j) = length (concat cs) + length c'"
proof -
  have 2: "cs = take j cs @ cs ! j # drop (Suc j) cs"
    using assms by (simp add: id_take_nth_drop)
  have 3: "cs[j := c'] = take j cs @ c' # drop (Suc j) cs"
    using assms by (simp add: upd_conv_take_nth_drop)
  show "set (concat (cs[j := c'])) \<subseteq> set c' \<union> set (concat cs)"
    unfolding 3 by (subst (3) 2) auto
  show "set c' \<subseteq> set (concat (cs[j := c']))"
    unfolding 3 by auto
  show "set (concat cs) \<subseteq> set (cs ! j) \<union> set (concat (cs[j := c']))"
    unfolding 3 by (subst 2) auto
  show "length (concat (cs[j := c'])) + length (cs ! j) = length (concat cs) + length c'"
    unfolding 3 by (subst (2) 2) simp
qed

lemma nodes_bound:
  fixes xs :: "'a::len word list"
  assumes "distinct xs" and "0 \<notin> set xs"
  shows "length xs < 2 ^ LENGTH('a)"
proof -
  have "card (set xs) \<le> card (UNIV - {0 :: 'a word})"
    using assms(2) by (intro card_mono) auto
  also have "\<dots> = 2 ^ LENGTH('a) - 1"
    by (simp add: card_Diff_singleton card_word)
  finally have "length xs \<le> 2 ^ LENGTH('a) - 1"
    using assms(1) by (simp add: distinct_card)
  moreover have "(0::nat) < 2 ^ LENGTH('a)" by simp
  ultimately show ?thesis by linarith
qed

lemma nth_concat_subset:
  assumes "j < length cs"
  shows "set (cs ! j) \<subseteq> set (concat cs)"
proof
  fix x assume "x \<in> set (cs ! j)"
  moreover have "cs ! j \<in> set cs" using assms by simp
  ultimately show "x \<in> set (concat cs)" unfolding set_concat by blast
qed

lemma chains_frame:
  assumes "chains m hs cs"
    and "\<And>x. x \<in> set (concat cs) \<Longrightarrow> nxt m' x = nxt m x \<and> prev m' x = prev m x \<and> x \<in> live m'"
  shows "chains m' hs cs"
  using assms list_all2_ring_frame[of m hs cs m'] by (simp add: chains_def)

lemma chains_prepend_new:
  assumes mok: "malloc_ok malloc" and ch: "chains m hs cs" and j: "j < length cs"
    and al: "malloc (live m) (unat ks + unat es) = Some n"
  shows "\<exists>m'. dll_prepend_new malloc m (hs ! j) k e ks es = Some (m', n)
        \<and> chains m' (hs[j := n]) (cs[j := n # cs ! j])
        \<and> live m' = insert n (live m)
        \<and> key m' = (key m)(n := take (unat ks) k)
        \<and> elt m' = (elt m)(n := take (unat es) e)
        \<and> freed m' = freed m \<and> n \<notin> set (concat cs) \<and> n \<noteq> 0"
proof -
  have r: "ring m (hs ! j) (cs ! j)" using ch j by (rule chains_nth)
  have n0: "n \<noteq> 0" and nl: "n \<notin> live m"
    using mok al by (auto simp: malloc_ok_def)
  have sub: "set (concat cs) \<subseteq> live m" using ch by (rule chains_nodes)
  then have nin: "n \<notin> set (concat cs)" using nl by blast
  from dll_prepend_new_ring[OF mok r al, of k e] obtain m' where
    p: "dll_prepend_new malloc m (hs ! j) k e ks es = Some (m', n)"
    and r': "ring m' n (n # cs ! j)"
    and f: "live m' = insert n (live m)" "key m' = (key m)(n := take (unat ks) k)"
      "elt m' = (elt m)(n := take (unat es) e)" "freed m' = freed m"
    and fr: "\<forall>x. x \<notin> set (n # cs ! j) \<longrightarrow> nxt m' x = nxt m x \<and> prev m' x = prev m x"
    by blast
  have "chains m' (hs[j := n]) (cs[j := n # cs ! j])"
    using ch j r'
  proof (rule chains_update[where A = "set (n # cs ! j)"])
    show "\<And>x. x \<in> set (concat cs) \<Longrightarrow> x \<notin> set (n # cs ! j)
        \<Longrightarrow> nxt m' x = nxt m x \<and> prev m' x = prev m x"
      using fr by blast
    show "set (concat cs) - set (cs ! j) \<subseteq> live m'" using sub f(1) by blast
    show "set (n # cs ! j) \<inter> set (concat cs) \<subseteq> set (cs ! j)" using nin by auto
    show "set (n # cs ! j) \<inter> set (concat cs) \<subseteq> set (cs ! j)" using nin by auto
  qed
  then show ?thesis using p f nin n0 by blast
qed

lemma chains_prepend:
  assumes ch: "chains m hs cs" and j: "j < length cs"
    and v: "valid m n" and nin: "n \<notin> set (concat cs)"
  shows "\<exists>m'. dll_prepend m (hs ! j) n = Some (m', n)
        \<and> chains m' (hs[j := n]) (cs[j := n # cs ! j])
        \<and> live m' = live m \<and> key m' = key m \<and> elt m' = elt m \<and> freed m' = freed m"
proof -
  have r: "ring m (hs ! j) (cs ! j)" using ch j by (rule chains_nth)
  have sub: "set (concat cs) \<subseteq> live m" using ch by (rule chains_nodes)
  have "set (cs ! j) \<subseteq> set (concat cs)" using j by (rule nth_concat_subset)
  then have nj: "n \<notin> set (cs ! j)" using nin by blast
  from dll_prepend_ring[OF r v nj] obtain m' where
    p: "dll_prepend m (hs ! j) n = Some (m', n)"
    and r': "ring m' n (n # cs ! j)"
    and f: "live m' = live m" "key m' = key m" "elt m' = elt m" "freed m' = freed m"
    and fr: "\<forall>x. x \<notin> set (n # cs ! j) \<longrightarrow> nxt m' x = nxt m x \<and> prev m' x = prev m x"
    by blast
  have "chains m' (hs[j := n]) (cs[j := n # cs ! j])"
    using ch j r'
  proof (rule chains_update[where A = "set (n # cs ! j)"])
    show "\<And>x. x \<in> set (concat cs) \<Longrightarrow> x \<notin> set (n # cs ! j)
        \<Longrightarrow> nxt m' x = nxt m x \<and> prev m' x = prev m x"
      using fr by blast
    show "set (concat cs) - set (cs ! j) \<subseteq> live m'" using sub f(1) by blast
    show "set (n # cs ! j) \<inter> set (concat cs) \<subseteq> set (cs ! j)" using nin by auto
    show "set (n # cs ! j) \<inter> set (concat cs) \<subseteq> set (cs ! j)" using nin by auto
  qed
  then show ?thesis using p f by blast
qed

lemma chains_delete:
  assumes ch: "chains m hs cs" and j: "j < length cs" and mem: "n \<in> set (cs ! j)"
  shows "\<exists>m' h'. dll_delete m (hs ! j) n fe = Some (m', h')
        \<and> chains m' (hs[j := h']) (cs[j := remove1 n (cs ! j)])
        \<and> live m' = live m - {n} \<and> key m' = key m
        \<and> elt m' = elt (run_free_elt fe m n) \<and> freed m' = freed (run_free_elt fe m n)"
proof -
  have r: "ring m (hs ! j) (cs ! j)" using ch j by (rule chains_nth)
  have sub: "set (concat cs) \<subseteq> live m" using ch by (rule chains_nodes)
  from dll_delete_ring[OF r mem, of fe] obtain m' h' where
    p: "dll_delete m (hs ! j) n fe = Some (m', h')"
    and r': "ring m' h' (remove1 n (cs ! j))"
    and f: "live m' = live m - {n}" "key m' = key m"
      "elt m' = elt (run_free_elt fe m n)" "freed m' = freed (run_free_elt fe m n)"
    and fr: "\<forall>x. x \<notin> set (cs ! j) \<longrightarrow> nxt m' x = nxt m x \<and> prev m' x = prev m x"
    by blast
  have "chains m' (hs[j := h']) (cs[j := remove1 n (cs ! j)])"
    using ch j r'
  proof (rule chains_update[where A = "set (cs ! j)"])
    show "\<And>x. x \<in> set (concat cs) \<Longrightarrow> x \<notin> set (cs ! j)
        \<Longrightarrow> nxt m' x = nxt m x \<and> prev m' x = prev m x"
      using fr by blast
    show "set (concat cs) - set (cs ! j) \<subseteq> live m'" using sub f(1) mem by blast
    show "set (cs ! j) \<inter> set (concat cs) \<subseteq> set (cs ! j)" by blast
    show "set (remove1 n (cs ! j)) \<inter> set (concat cs) \<subseteq> set (cs ! j)"
      using set_remove1_subset[of n "cs ! j"] by blast
  qed
  then show ?thesis using p f by blast
qed

lemma chains_remove:
  assumes ch: "chains m hs cs" and j: "j < length cs" and mem: "n \<in> set (cs ! j)"
  shows "\<exists>m' h'. dll_remove m (hs ! j) n = Some (m', h')
        \<and> chains m' (hs[j := h']) (cs[j := remove1 n (cs ! j)])
        \<and> live m' = live m \<and> key m' = key m \<and> elt m' = elt m \<and> freed m' = freed m"
proof -
  have r: "ring m (hs ! j) (cs ! j)" using ch j by (rule chains_nth)
  have sub: "set (concat cs) \<subseteq> live m" using ch by (rule chains_nodes)
  from dll_remove_ring[OF r mem] obtain m' h' where
    p: "dll_remove m (hs ! j) n = Some (m', h')"
    and r': "ring m' h' (remove1 n (cs ! j))"
    and f: "live m' = live m" "key m' = key m" "elt m' = elt m" "freed m' = freed m"
    and fr: "\<forall>x. x \<notin> set (cs ! j) \<longrightarrow> nxt m' x = nxt m x \<and> prev m' x = prev m x"
    by blast
  have "chains m' (hs[j := h']) (cs[j := remove1 n (cs ! j)])"
    using ch j r'
  proof (rule chains_update[where A = "set (cs ! j)"])
    show "\<And>x. x \<in> set (concat cs) \<Longrightarrow> x \<notin> set (cs ! j)
        \<Longrightarrow> nxt m' x = nxt m x \<and> prev m' x = prev m x"
      using fr by blast
    show "set (concat cs) - set (cs ! j) \<subseteq> live m'" using sub f(1) by blast
    show "set (cs ! j) \<inter> set (concat cs) \<subseteq> set (cs ! j)" by blast
    show "set (remove1 n (cs ! j)) \<inter> set (concat cs) \<subseteq> set (cs ! j)"
      using set_remove1_subset[of n "cs ! j"] by blast
  qed
  then show ?thesis using p f by blast
qed


section \<open>The operations keep the invariant\<close>

lemma hash_cong:
  "key_size a = key_size b \<Longrightarrow> rdc_key a = rdc_key b \<Longrightarrow> count a = count b
    \<Longrightarrow> hash a k = hash b k"
  by (simp add: hash_def convert_std_key_def split: option.splits)

lemma hash_lt: "count ht \<noteq> 0 \<Longrightarrow> unat (hash ht k) < unat (count ht)"
  by (simp add: hash_def unat_mod unat_gt_0)

lemma first_match_in:
  "first_match P ns \<noteq> 0 \<Longrightarrow> first_match P ns \<in> set ns \<and> P (first_match P ns)"
  by (induction ns) (auto split: if_splits)

lemma first_match_none:
  "first_match P ns = 0 \<Longrightarrow> 0 \<notin> set ns \<Longrightarrow> a \<in> set ns \<Longrightarrow> \<not> P a"
  by (induction ns) (auto split: if_splits)

lemma first_match_cong:
  "(\<And>a. a \<in> set ns \<Longrightarrow> P a = Q a) \<Longrightarrow> first_match P ns = first_match Q ns"
  by (induction ns) auto

lemma first_match_some:
  "a \<in> set ns \<Longrightarrow> P a \<Longrightarrow> 0 \<notin> set ns \<Longrightarrow> first_match P ns \<noteq> 0"
  by (induction ns) (auto split: if_splits)

lemma ht_inv0_bucket:
  assumes "ht_inv0 ht m cs"
  shows "unat (hash ht k) < length cs" and "unat (hash ht k) < length (key_elts ht)"
    and "ring m (key_elts ht ! unat (hash ht k)) (cs ! unat (hash ht k))"
proof -
  show 1: "unat (hash ht k) < length cs"
    using assms hash_lt[of ht k] by (simp add: ht_inv0_def)
  show "unat (hash ht k) < length (key_elts ht)"
    using 1 assms chains_length[of m "key_elts ht" cs] by (simp add: ht_inv0_def)
  show "ring m (key_elts ht ! unat (hash ht k)) (cs ! unat (hash ht k))"
    using assms 1 by (intro chains_nth) (simp_all add: ht_inv0_def)
qed

lemma dll_search_key_ring:
  "ring m head ns \<Longrightarrow> dll_search_key m head (Some k) ks cmp
     = Some (first_match (\<lambda>a. key_match cmp ks (key m a) k) ns)"
  by (simp add: dll_search_key_def dll_search_key_trace_ring)

lemma ht_search_inv0:
  assumes "ht_inv0 ht m cs"
  shows "ht_divchn_search ht m k = Some (first_match (probe ht m k) (cs ! unat (hash ht k)))"
  using ht_inv0_bucket[OF assms, of k]
  by (simp add: ht_divchn_search_def Let_def dll_search_key_ring)

lemma ht_inv0_hashed: "ht_inv0 ht m cs \<Longrightarrow> hashed ht m cs"
  by (simp add: ht_inv0_def hashed_def)

lemma ladder_upd [simp]:
  "ladder_at (ht\<lparr>key_elts := x\<rparr>) i = ladder_at ht i"
  "ladder_at (ht\<lparr>num_elts := y\<rparr>) i = ladder_at ht i"
  "saturated (ht\<lparr>key_elts := x\<rparr>) = saturated ht"
  "saturated (ht\<lparr>num_elts := y\<rparr>) = saturated ht"
  by (simp_all add: ladder_at_def saturated_def)

lemma hash_upd [simp]:
  "hash (ht\<lparr>key_elts := x\<rparr>) k = hash ht k"
  "hash (ht\<lparr>num_elts := y\<rparr>) k = hash ht k"
  by (rule hash_cong; simp)+

lemma store_elt_fields [simp]:
  "live (store_elt ht m n e) = live m"
  "key (store_elt ht m n e) = key m"
  "nxt (store_elt ht m n e) = nxt m"
  "prev (store_elt ht m n e) = prev m"
  by (simp_all add: store_elt_def Let_def)

text \<open>Inserting a key that is present: the element is replaced in place.\<close>

lemma ht_insert_found:
  assumes inv: "ht_inv ht m cs"
    and found: "first_match (probe ht m k) (cs ! unat (hash ht k)) = n" and n: "n \<noteq> 0"
  shows "ht_divchn_insert malloc ht m k e = Some (ht, store_elt ht m n e)"
    and "ht_inv ht (store_elt ht m n e) cs"
proof -
  from inv have inv0: "ht_inv0 ht m cs" and load: "max_num_elts ht < num_elts ht \<longrightarrow> saturated ht"
    by (simp_all add: ht_inv_def)
  note b = ht_inv0_bucket[OF inv0, of k]
  have s: "dll_search_key m (key_elts ht ! unat (hash ht k)) (Some k) (key_size ht) (cmp_key ht)
      = Some n"
    using b(3) found by (simp add: dll_search_key_ring)
  have cond: "\<not> (max_num_elts ht < num_elts ht \<and> count_ix ht \<noteq> C_SIZE_MAX
      \<and> count_ix ht \<noteq> of_nat C_PRIME_PARTS_COUNT)"
    using load by (auto simp: saturated_def)
  show "ht_divchn_insert malloc ht m k e = Some (ht, store_elt ht m n e)"
    unfolding ht_divchn_insert_def Let_def store_elt_def
    using b(2) n by (simp add: s cond)
  have ch: "chains m (key_elts ht) cs" using inv0 by (simp add: ht_inv0_def)
  have sub: "set (concat cs) \<subseteq> live m" using ch by (rule chains_nodes)
  have "chains (store_elt ht m n e) (key_elts ht) cs"
    using ch
  proof (rule chains_frame)
    fix x assume "x \<in> set (concat cs)"
    then show "nxt (store_elt ht m n e) x = nxt m x \<and> prev (store_elt ht m n e) x = prev m x
        \<and> x \<in> live (store_elt ht m n e)"
      using sub by auto
  qed
  then have "ht_inv0 ht (store_elt ht m n e) cs"
    using inv0 by (simp add: ht_inv0_def)
  then show "ht_inv ht (store_elt ht m n e) cs"
    using load by (simp add: ht_inv_def)
qed

text \<open>Removing or deleting a key that is present.\<close>

lemma ht_unlink_inv:
  assumes inv: "ht_inv ht m cs" and j: "j < length cs" and mem: "n \<in> set (cs ! j)"
    and ch: "chains m' ((key_elts ht)[j := h']) (cs[j := remove1 n (cs ! j)])"
    and k: "key m' = key m"
  shows "ht_inv (ht\<lparr>key_elts := (key_elts ht)[j := h'], num_elts := num_elts ht - 1\<rparr>) m'
           (cs[j := remove1 n (cs ! j)])"
proof -
  from inv have inv0: "ht_inv0 ht m cs" and load: "max_num_elts ht < num_elts ht \<longrightarrow> saturated ht"
    by (simp_all add: ht_inv_def)
  let ?cs = "cs[j := remove1 n (cs ! j)]"
  have d: "distinct (cs ! j)"
    using chains_nth[of m "key_elts ht" cs j] ring_nodes inv0 j by (auto simp: ht_inv0_def)
  have "length (concat ?cs) + length (cs ! j) = length (concat cs) + length (remove1 n (cs ! j))"
    using j by (rule concat_update_set)
  moreover have "length (remove1 n (cs ! j)) = length (cs ! j) - 1"
    using mem by (simp add: length_remove1)
  moreover have "0 < length (cs ! j)" using mem by (cases "cs ! j") auto
  ultimately have len: "length (concat ?cs) = length (concat cs) - 1" and pos: "0 < length (concat cs)"
    by linarith+
  have un: "unat (num_elts ht) = length (concat cs)" using inv0 by (simp add: ht_inv0_def)
  then have nz: "num_elts ht \<noteq> 0" using pos by (auto simp: unat_eq_0)
  have un': "unat (num_elts ht - 1) = length (concat ?cs)"
    using nz un len by (simp add: unat_minus_one)
  have le: "num_elts ht - 1 \<le> num_elts ht"
    using nz by (simp add: word_le_nat_alt unat_minus_one)
  have h: "hashed ht m' ?cs"
    using ht_inv0_hashed[OF inv0] j set_remove1_subset[of n "cs ! j"]
    by (auto simp: hashed_def nth_list_update k)
  have "ht_inv0 (ht\<lparr>key_elts := (key_elts ht)[j := h'], num_elts := num_elts ht - 1\<rparr>) m' ?cs"
    using inv0 ch h un' by (simp add: ht_inv0_def hashed_def)
  moreover have "max_num_elts ht < num_elts ht - 1 \<longrightarrow> saturated ht"
    using load le by auto
  ultimately show ?thesis by (simp add: ht_inv_def)
qed

lemma ht_delete_found:
  assumes inv: "ht_inv ht m cs"
    and found: "first_match (probe ht m k) (cs ! unat (hash ht k)) = n" and n: "n \<noteq> 0"
  shows "\<exists>m' h'. ht_divchn_delete ht m k
          = Some (ht\<lparr>key_elts := (key_elts ht)[unat (hash ht k) := h'],
                     num_elts := num_elts ht - 1\<rparr>, m')
        \<and> ht_inv (ht\<lparr>key_elts := (key_elts ht)[unat (hash ht k) := h'],
                     num_elts := num_elts ht - 1\<rparr>) m'
             (cs[unat (hash ht k) := remove1 n (cs ! unat (hash ht k))])
        \<and> live m' = live m - {n} \<and> key m' = key m
        \<and> elt m' = elt (run_free_elt (free_elt ht) m n)
        \<and> freed m' = freed (run_free_elt (free_elt ht) m n)"
proof -
  from inv have inv0: "ht_inv0 ht m cs" by (simp add: ht_inv_def)
  note b = ht_inv0_bucket[OF inv0, of k]
  have ch: "chains m (key_elts ht) cs" using inv0 by (simp add: ht_inv0_def)
  have s: "dll_search_key m (key_elts ht ! unat (hash ht k)) (Some k) (key_size ht) (cmp_key ht)
      = Some n"
    using b(3) found by (simp add: dll_search_key_ring)
  have mem: "n \<in> set (cs ! unat (hash ht k))"
    using first_match_in[of "probe ht m k" "cs ! unat (hash ht k)"] found n by simp
  from chains_delete[OF ch b(1) mem, of "free_elt ht"] obtain m' h' where
    d: "dll_delete m (key_elts ht ! unat (hash ht k)) n (free_elt ht) = Some (m', h')"
    and ch': "chains m' ((key_elts ht)[unat (hash ht k) := h'])
        (cs[unat (hash ht k) := remove1 n (cs ! unat (hash ht k))])"
    and f: "live m' = live m - {n}" "key m' = key m"
      "elt m' = elt (run_free_elt (free_elt ht) m n)"
      "freed m' = freed (run_free_elt (free_elt ht) m n)"
    by blast
  have "ht_divchn_delete ht m k
      = Some (ht\<lparr>key_elts := (key_elts ht)[unat (hash ht k) := h'],
                 num_elts := num_elts ht - 1\<rparr>, m')"
    using b(2) s n d by (simp add: ht_divchn_delete_def Let_def)
  then show ?thesis
    using ht_unlink_inv[OF inv b(1) mem ch' f(2)] f by blast
qed

lemma ht_remove_found:
  assumes inv: "ht_inv ht m cs"
    and found: "first_match (probe ht m k) (cs ! unat (hash ht k)) = n" and n: "n \<noteq> 0"
  shows "\<exists>m' h'. ht_divchn_remove ht m k out
          = Some (ht\<lparr>key_elts := (key_elts ht)[unat (hash ht k) := h'],
                     num_elts := num_elts ht - 1\<rparr>, m',
                  memcpy out (elt m n) (unat (elt_size ht)))
        \<and> ht_inv (ht\<lparr>key_elts := (key_elts ht)[unat (hash ht k) := h'],
                     num_elts := num_elts ht - 1\<rparr>) m'
             (cs[unat (hash ht k) := remove1 n (cs ! unat (hash ht k))])
        \<and> live m' = live m - {n} \<and> key m' = key m \<and> elt m' = elt m \<and> freed m' = freed m"
proof -
  from inv have inv0: "ht_inv0 ht m cs" by (simp add: ht_inv_def)
  note b = ht_inv0_bucket[OF inv0, of k]
  have ch: "chains m (key_elts ht) cs" using inv0 by (simp add: ht_inv0_def)
  have s: "dll_search_key m (key_elts ht ! unat (hash ht k)) (Some k) (key_size ht) (cmp_key ht)
      = Some n"
    using b(3) found by (simp add: dll_search_key_ring)
  have mem: "n \<in> set (cs ! unat (hash ht k))"
    using first_match_in[of "probe ht m k" "cs ! unat (hash ht k)"] found n by simp
  from chains_delete[OF ch b(1) mem, of None] obtain m' h' where
    d: "dll_delete m (key_elts ht ! unat (hash ht k)) n None = Some (m', h')"
    and ch': "chains m' ((key_elts ht)[unat (hash ht k) := h'])
        (cs[unat (hash ht k) := remove1 n (cs ! unat (hash ht k))])"
    and f: "live m' = live m - {n}" "key m' = key m" "elt m' = elt m" "freed m' = freed m"
    by auto
  have "ht_divchn_remove ht m k out
      = Some (ht\<lparr>key_elts := (key_elts ht)[unat (hash ht k) := h'],
                 num_elts := num_elts ht - 1\<rparr>, m',
              memcpy out (elt m n) (unat (elt_size ht)))"
    using b(2) s n d by (simp add: ht_divchn_remove_def Let_def)
  then show ?thesis
    using ht_unlink_inv[OF inv b(1) mem ch' f(2)] f by blast
qed

text \<open>A key that is absent: removing and deleting change nothing.\<close>

lemma ht_absent_noop:
  assumes "ht_divchn_search ht m k = Some 0"
  shows "ht_divchn_remove ht m k out = Some (ht, m, out)"
    and "ht_divchn_delete ht m k = Some (ht, m)"
proof -
  from assms have b: "unat (hash ht k) < length (key_elts ht)"
    and s: "dll_search_key m (key_elts ht ! unat (hash ht k)) (Some k) (key_size ht) (cmp_key ht)
      = Some 0"
    by (simp_all add: ht_divchn_search_def Let_def split: if_splits)
  show "ht_divchn_remove ht m k out = Some (ht, m, out)"
    unfolding ht_divchn_remove_def Let_def using b s by simp
  show "ht_divchn_delete ht m k = Some (ht, m)"
    unfolding ht_divchn_delete_def Let_def using b s by simp
qed

lemma chains_drop_mid:
  "chains m (hs1 @ h # hs2) (cs1 @ c # cs2) \<Longrightarrow> length hs1 = length cs1
    \<Longrightarrow> chains m (hs1 @ hs2) (cs1 @ cs2)"
  by (auto simp: chains_def list_all2_append)

lemma hashed_upd [simp]: "hashed (ht\<lparr>key_elts := x\<rparr>) m cs = hashed ht m cs"
  by (simp add: hashed_def)

lemma rehash_chain_ok:
  fixes ht :: "'a::len ht_divchn"
  assumes c0: "count ht \<noteq> 0"
  shows "chains m (ks @ h # olds) (ncs @ oc # ocs) \<Longrightarrow> length ks = length ncs
    \<Longrightarrow> length ncs = unat (count ht) \<Longrightarrow> hashed ht m ncs
    \<Longrightarrow> \<exists>ks' m' ncs'. rehash_chain (ht\<lparr>key_elts := ks\<rparr>) m h = Some (ht\<lparr>key_elts := ks'\<rparr>, m')
          \<and> chains m' (ks' @ 0 # olds) (ncs' @ [] # ocs)
          \<and> length ks' = length ncs \<and> length ncs' = length ncs \<and> hashed ht m' ncs'
          \<and> set (concat ncs') = set (concat ncs) \<union> set oc
          \<and> length (concat ncs') = length (concat ncs) + length oc
          \<and> live m' = live m \<and> key m' = key m \<and> elt m' = elt m \<and> freed m' = freed m"
proof (induction oc arbitrary: ks m h ncs)
  case Nil
  have "ring m h []"
    using chains_nth[OF Nil.prems(1), of "length ncs"] Nil.prems(2) by (simp add: nth_append)
  then have h: "h = 0" by simp
  have "rehash_chain (ht\<lparr>key_elts := ks\<rparr>) m h = Some (ht\<lparr>key_elts := ks\<rparr>, m)"
    by (subst rehash_chain.simps) (simp add: h)
  then show ?case using Nil.prems h by auto
next
  case (Cons n oc')
  let ?J = "length ncs"
  note ch = Cons.prems(1)
  have J: "?J < length (ncs @ (n # oc') # ocs)" by simp
  have nthJ: "(ncs @ (n # oc') # ocs) ! ?J = n # oc'" "(ks @ h # olds) ! ?J = h"
    using Cons.prems(2) by (simp_all add: nth_append)
  have r: "ring m h (n # oc')" using chains_nth[OF ch J] nthJ by simp
  then have h: "h = n" by (simp add: ring_Cons)
  have nodes: "set (concat (ncs @ (n # oc') # ocs)) \<subseteq> live m" "0 \<notin> set (concat (ncs @ (n # oc') # ocs))"
    using chains_nodes[OF ch] by blast+
  have n0: "n \<noteq> 0" and nl: "n \<in> live m" using nodes by auto
  have d: "distinct (concat (ncs @ (n # oc') # ocs))" using ch by (simp add: chains_def)
  have mem: "n \<in> set ((ncs @ (n # oc') # ocs) ! ?J)" by (simp add: nthJ)
  from chains_remove[OF ch J mem] obtain m1 h1 where
    rm: "dll_remove m h n = Some (m1, h1)"
    and ch1: "chains m1 (ks @ h1 # olds) (ncs @ oc' # ocs)"
    and f1: "live m1 = live m" "key m1 = key m" "elt m1 = elt m" "freed m1 = freed m"
    using Cons.prems(2) by (auto simp: nthJ list_update_append)
  have v1: "valid m1 n" using n0 nl f1 by (simp add: valid_def)
  have nin1: "n \<notin> set (concat (ncs @ oc' # ocs))" using d by auto
  define ix where "ix = unat (hash ht (key m n))"
  have ixl: "ix < length ncs"
    using hash_lt[OF c0, of "key m n"] Cons.prems(3) by (simp add: ix_def)
  then have ix': "ix < length (ncs @ oc' # ocs)" by simp
  from chains_prepend[OF ch1 ix' v1 nin1] obtain m2 where
    pp: "dll_prepend m1 (ks ! ix) n = Some (m2, n)"
    and ch2: "chains m2 (ks[ix := n] @ h1 # olds) (ncs[ix := n # ncs ! ix] @ oc' # ocs)"
    and f2: "live m2 = live m1" "key m2 = key m1" "elt m2 = elt m1" "freed m2 = freed m1"
    using ixl Cons.prems(2) by (auto simp: nth_append list_update_append)
  have hs2: "hashed ht m2 (ncs[ix := n # ncs ! ix])"
    using Cons.prems(4) ixl
    by (auto simp: hashed_def nth_list_update f1 f2 ix_def)
  from Cons.IH[OF ch2 _ _ hs2] obtain ks' m' ncs' where
    rc: "rehash_chain (ht\<lparr>key_elts := ks[ix := n]\<rparr>) m2 h1 = Some (ht\<lparr>key_elts := ks'\<rparr>, m')"
    and ch': "chains m' (ks' @ 0 # olds) (ncs' @ [] # ocs)"
    and l': "length ks' = length ncs" "length ncs' = length ncs" and hs': "hashed ht m' ncs'"
    and st: "set (concat ncs') = set (concat (ncs[ix := n # ncs ! ix])) \<union> set oc'"
    and ln: "length (concat ncs') = length (concat (ncs[ix := n # ncs ! ix])) + length oc'"
    and f': "live m' = live m2" "key m' = key m2" "elt m' = elt m2" "freed m' = freed m2"
    using Cons.prems(2,3) by auto
  note cu = concat_update_set[OF ixl, of "n # ncs ! ix"]
  have sub: "set (ncs ! ix) \<subseteq> set (concat ncs)" using ixl by (rule nth_concat_subset)
  have st2: "set (concat (ncs[ix := n # ncs ! ix])) = insert n (set (concat ncs))"
    using cu(1,2,3) sub by auto
  have ln2: "length (concat (ncs[ix := n # ncs ! ix])) = Suc (length (concat ncs))"
    using cu(4) by simp
  have "rehash_chain (ht\<lparr>key_elts := ks\<rparr>) m h
      = rehash_chain (ht\<lparr>key_elts := ks[ix := n]\<rparr>) m2 h1"
    using n0 rm pp ixl Cons.prems(2)
    by (subst rehash_chain.simps) (simp add: h Let_def ix_def f1)
  then show ?case
    using rc ch' l' hs' st ln f' st2 ln2 f1 f2 by auto
qed

lemma rehash_ok:
  fixes ht :: "'a::len ht_divchn"
  assumes c0: "count ht \<noteq> 0"
  shows "chains m (ks @ olds) (ncs @ ocs) \<Longrightarrow> length ks = length ncs
    \<Longrightarrow> length ncs = unat (count ht) \<Longrightarrow> hashed ht m ncs
    \<Longrightarrow> \<exists>ks' m' ncs'. rehash (ht\<lparr>key_elts := ks\<rparr>) m olds = Some (ht\<lparr>key_elts := ks'\<rparr>, m')
          \<and> chains m' ks' ncs'
          \<and> length ncs' = length ncs \<and> hashed ht m' ncs'
          \<and> set (concat ncs') = set (concat ncs) \<union> set (concat ocs)
          \<and> length (concat ncs') = length (concat ncs) + length (concat ocs)
          \<and> live m' = live m \<and> key m' = key m \<and> elt m' = elt m \<and> freed m' = freed m"
proof (induction olds arbitrary: ks m ncs ocs)
  case Nil
  have "length (ks @ []) = length (ncs @ ocs)" using Nil.prems(1) by (rule chains_length)
  then have "ocs = []" using Nil.prems(2) by simp
  then show ?case using Nil.prems by auto
next
  case (Cons h olds)
  have "length (ks @ h # olds) = length (ncs @ ocs)" using Cons.prems(1) by (rule chains_length)
  then obtain oc ocs' where ocs: "ocs = oc # ocs'"
    using Cons.prems(2) by (cases ocs) auto
  from rehash_chain_ok[OF c0 Cons.prems(1)[unfolded ocs] Cons.prems(2,3,4)]
  obtain ks1 m1 ncs1 where
    rc: "rehash_chain (ht\<lparr>key_elts := ks\<rparr>) m h = Some (ht\<lparr>key_elts := ks1\<rparr>, m1)"
    and ch1: "chains m1 (ks1 @ 0 # olds) (ncs1 @ [] # ocs')"
    and l1: "length ks1 = length ncs" "length ncs1 = length ncs" and hs1: "hashed ht m1 ncs1"
    and st1: "set (concat ncs1) = set (concat ncs) \<union> set oc"
    and ln1: "length (concat ncs1) = length (concat ncs) + length oc"
    and f1: "live m1 = live m" "key m1 = key m" "elt m1 = elt m" "freed m1 = freed m"
    by blast
  have ch1': "chains m1 (ks1 @ olds) (ncs1 @ ocs')"
    using ch1 l1 by (intro chains_drop_mid[OF ch1]) simp
  from Cons.IH[OF ch1' _ _ hs1] obtain ks' m' ncs' where
    rh: "rehash (ht\<lparr>key_elts := ks1\<rparr>) m1 olds = Some (ht\<lparr>key_elts := ks'\<rparr>, m')"
    and r: "chains m' ks' ncs'" "length ncs' = length ncs1" "hashed ht m' ncs'"
      "set (concat ncs') = set (concat ncs1) \<union> set (concat ocs')"
      "length (concat ncs') = length (concat ncs1) + length (concat ocs')"
      "live m' = live m1" "key m' = key m1" "elt m' = elt m1" "freed m' = freed m1"
    using l1 Cons.prems(3) by auto
  have "rehash (ht\<lparr>key_elts := ks\<rparr>) m (h # olds) = Some (ht\<lparr>key_elts := ks'\<rparr>, m')"
    by (simp add: rc rh)
  then show ?case
    using r l1 st1 ln1 f1
    by (intro exI[of _ ks'] exI[of _ m'] exI[of _ ncs']) (simp add: ocs Un_assoc del: rehash.simps)
qed

lemma same_cfg_refl [simp]: "same_cfg ht ht"
  by (simp add: same_cfg_def)

lemma same_cfg_trans: "same_cfg a b \<Longrightarrow> same_cfg b c \<Longrightarrow> same_cfg a c"
  by (simp add: same_cfg_def)

lemma same_rest_cfg: "same_rest a b \<Longrightarrow> same_cfg a b"
  by (simp add: same_rest_def same_cfg_def)

lemma concat_replicate_Nil [simp]: "concat (replicate n []) = []"
  by (induction n) auto

lemma chains_empty: "chains m (replicate n 0) (replicate n [])"
  by (simp add: chains_def list_all2_conv_all_nth)

lemma ht_grow_ok:
  fixes ht :: "'a::len ht_divchn"
  assumes ok: "size_t_ok TYPE('a)" and inv0: "ht_inv0 ht m cs" and ns: "\<not> saturated ht"
  shows "\<exists>ht' m' cs'. ht_grow ht m = Some (ht', m') \<and> ht_inv ht' m' cs'
        \<and> set (concat cs') = set (concat cs)
        \<and> live m' = live m \<and> key m' = key m \<and> elt m' = elt m \<and> freed m' = freed m
        \<and> same_cfg ht ht' \<and> num_elts ht' = num_elts ht"
proof -
  from inv0 ns obtain i where at: "ladder_at ht i" by (auto simp: ht_inv0_def)
  from incr_count_while_at[OF ok at, of "num_elts ht"] obtain ht1 where
    w: "incr_count_while (num_elts ht) ht = Some ht1" and sr: "same_rest ht ht1"
    and c1: "count ht1 \<noteq> 0" and l1: "saturated ht1 \<or> (\<exists>j. ladder_at ht1 j)"
    and ld: "\<not> max_num_elts ht1 < num_elts ht \<or> saturated ht1"
    by blast
  have f: "num_elts ht1 = num_elts ht" "key_elts ht1 = key_elts ht"
    "key_size ht1 = key_size ht" "rdc_key ht1 = rdc_key ht"
    using sr by (simp_all add: same_rest_def)
  have ch: "chains m (key_elts ht) cs" and lc: "length cs = unat (count ht)"
    and un: "unat (num_elts ht) = length (concat cs)"
    using inv0 by (simp_all add: ht_inv0_def)
  have lk: "length (key_elts ht) = unat (count ht)"
    using chains_length[OF ch] lc by simp
  show ?thesis
  proof (cases "count ht = count ht1")
    case True
    have g: "ht_grow ht m = Some (ht1, m)"
      by (simp add: ht_grow_def Let_def w True)
    have hh: "hash ht1 k = hash ht k" for k
      by (rule hash_cong) (simp_all add: f True)
    have "ht_inv0 ht1 m cs"
      using inv0 c1 l1 by (simp add: ht_inv0_def f True[symmetric] hh)
    then have "ht_inv ht1 m cs" using ld by (auto simp: ht_inv_def f)
    then show ?thesis using g sr f by (auto simp: same_rest_cfg)
  next
    case False
    define n1 where "n1 = unat (count ht1)"
    have g: "ht_grow ht m = rehash (ht1\<lparr>key_elts := replicate n1 0\<rparr>) m (key_elts ht)"
      using False lk by (simp add: ht_grow_def Let_def w n1_def dll_init_def)
    have ch0: "chains m (replicate n1 0 @ key_elts ht) (replicate n1 [] @ cs)"
      using ch chains_empty[of m n1] chains_length[OF ch]
      by (simp add: chains_def list_all2_append)
    have hs0: "hashed ht1 m (replicate n1 [])" by (simp add: hashed_def)
    from rehash_ok[OF c1 ch0 _ _ hs0] obtain ks' m' ncs' where
      rh: "rehash (ht1\<lparr>key_elts := replicate n1 0\<rparr>) m (key_elts ht) = Some (ht1\<lparr>key_elts := ks'\<rparr>, m')"
      and r: "chains m' ks' ncs'" "length ncs' = n1" "hashed ht1 m' ncs'"
        "set (concat ncs') = set (concat cs)" "length (concat ncs') = length (concat cs)"
        "live m' = live m" "key m' = key m" "elt m' = elt m" "freed m' = freed m"
      by (auto simp: n1_def)
    have "ht_inv0 (ht1\<lparr>key_elts := ks'\<rparr>) m' ncs'"
      using c1 l1 r un by (simp add: ht_inv0_def n1_def f hashed_def)
    then have "ht_inv (ht1\<lparr>key_elts := ks'\<rparr>) m' ncs'"
      using ld by (auto simp: ht_inv_def f)
    moreover have "same_cfg ht (ht1\<lparr>key_elts := ks'\<rparr>)"
      using sr by (simp add: same_rest_def same_cfg_def)
    ultimately show ?thesis
      using g rh r f by auto
  qed
qed

lemma hashed_prepend:
  assumes h: "hashed ht m cs" and j: "j < length cs"
    and k: "key m' = (key m)(a := k)" and a: "a \<notin> set (concat cs)"
    and hk: "unat (hash ht k) = j"
  shows "hashed ht m' (cs[j := a # cs ! j])"
  unfolding hashed_def
proof (intro allI impI ballI)
  fix b x assume b: "b < length (cs[j := a # cs ! j])" and x: "x \<in> set (cs[j := a # cs ! j] ! b)"
  have bl: "b < length cs" using b by simp
  show "unat (hash ht (key m' x)) = b"
  proof (cases "x = a")
    case True
    have "b = j"
    proof (rule ccontr)
      assume "b \<noteq> j"
      then have "x \<in> set (cs ! b)" using x by simp
      then have "x \<in> set (concat cs)" using nth_concat_subset[OF bl] by blast
      then show False using a True by simp
    qed
    then show ?thesis using True k hk by simp
  next
    case False
    then have "x \<in> set (cs ! b)" using x bl by (cases "b = j") auto
    then show ?thesis using h bl False k by (simp add: hashed_def)
  qed
qed

lemma ht_insert_absent:
  fixes ht :: "'a::len ht_divchn"
  assumes ok: "size_t_ok TYPE('a)" and mok: "malloc_ok malloc"
    and inv: "ht_inv ht m cs"
    and absent: "first_match (probe ht m k) (cs ! unat (hash ht k)) = 0"
    and len: "length k = unat (key_size ht)"
    and al: "malloc (live m) (unat (key_size ht) + unat (elt_size ht)) = Some a"
  shows "\<exists>ht' m' cs'. ht_divchn_insert malloc ht m k e = Some (ht', m') \<and> ht_inv ht' m' cs'
        \<and> set (concat cs') = insert a (set (concat cs)) \<and> a \<notin> set (concat cs) \<and> a \<noteq> 0
        \<and> live m' = insert a (live m) \<and> key m' = (key m)(a := k)
        \<and> elt m' = (elt m)(a := take (unat (elt_size ht)) e) \<and> freed m' = freed m
        \<and> same_cfg ht ht' \<and> num_elts ht' = num_elts ht + 1"
proof -
  from inv have inv0: "ht_inv0 ht m cs" and load: "max_num_elts ht < num_elts ht \<longrightarrow> saturated ht"
    by (simp_all add: ht_inv_def)
  define j where "j = unat (hash ht k)"
  note b = ht_inv0_bucket[OF inv0, of k, folded j_def]
  have ch: "chains m (key_elts ht) cs" using inv0 by (simp add: ht_inv0_def)
  have s: "dll_search_key m (key_elts ht ! j) (Some k) (key_size ht) (cmp_key ht) = Some 0"
    using b(3) absent by (simp add: dll_search_key_ring j_def)
  from chains_prepend_new[OF mok ch b(1) al, of k e] obtain m1 where
    p: "dll_prepend_new malloc m (key_elts ht ! j) k e (key_size ht) (elt_size ht) = Some (m1, a)"
    and ch1: "chains m1 ((key_elts ht)[j := a]) (cs[j := a # cs ! j])"
    and f: "live m1 = insert a (live m)" "key m1 = (key m)(a := take (unat (key_size ht)) k)"
      "elt m1 = (elt m)(a := take (unat (elt_size ht)) e)" "freed m1 = freed m"
    and nin: "a \<notin> set (concat cs)" and a0: "a \<noteq> 0"
    by blast
  let ?cs = "cs[j := a # cs ! j]"
  define ht1 where "ht1 = ht\<lparr>key_elts := (key_elts ht)[j := a], num_elts := num_elts ht + 1\<rparr>"
  have k1: "key m1 = (key m)(a := k)" using f(2) len by simp
  note cu = concat_update_set[OF b(1), of "a # cs ! j"]
  have lc: "length (concat ?cs) = Suc (length (concat cs))"
    using cu(4) by simp
  have sc: "set (concat ?cs) = insert a (set (concat cs))"
    using cu(1,2,3) nth_concat_subset[OF b(1)] by auto
  have d: "distinct (concat ?cs)" using ch1 by (simp add: chains_def)
  have z: "0 \<notin> set (concat ?cs)" using ch1 by (rule chains_nodes)
  have "length (concat ?cs) < 2 ^ LENGTH('a)" using d z by (rule nodes_bound)
  moreover have un: "unat (num_elts ht) = length (concat cs)" using inv0 by (simp add: ht_inv0_def)
  ultimately have lt: "unat (num_elts ht) + 1 < 2 ^ LENGTH('a)" using lc by simp
  have un1: "unat (num_elts ht + 1) = length (concat ?cs)"
    using lt un lc by (simp add: unat_add_lem[THEN iffD1])
  have h1: "hashed ht m1 ?cs"
    using ht_inv0_hashed[OF inv0] b(1) k1 nin by (rule hashed_prepend) (simp add: j_def)
  have inv1: "ht_inv0 ht1 m1 ?cs"
    using inv0 ch1 h1 un1 by (simp add: ht_inv0_def ht1_def hashed_def)
  have cfg1: "same_cfg ht ht1" by (simp add: same_cfg_def ht1_def)
  have n1: "num_elts ht1 = num_elts ht + 1" by (simp add: ht1_def)
  have ins: "ht_divchn_insert malloc ht m k e =
      (if num_elts ht1 > max_num_elts ht1 \<and> count_ix ht1 \<noteq> C_SIZE_MAX
          \<and> count_ix ht1 \<noteq> of_nat C_PRIME_PARTS_COUNT
       then ht_grow ht1 m1 else Some (ht1, m1))"
    unfolding ht_divchn_insert_def Let_def j_def[symmetric]
    using b(2) by (simp add: s p ht1_def)
  show ?thesis
  proof (cases "num_elts ht1 > max_num_elts ht1 \<and> \<not> saturated ht1")
    case True
    then have ns: "\<not> saturated ht1" by simp
    from ht_grow_ok[OF ok inv1 ns] obtain ht' m' cs' where
      g: "ht_grow ht1 m1 = Some (ht', m')" "ht_inv ht' m' cs'"
        "set (concat cs') = set (concat ?cs)"
        "live m' = live m1" "key m' = key m1" "elt m' = elt m1" "freed m' = freed m1"
        "same_cfg ht1 ht'" "num_elts ht' = num_elts ht1"
      by blast
    have "ht_divchn_insert malloc ht m k e = Some (ht', m')"
      using ins True g(1) by (simp add: saturated_def)
    moreover have "same_cfg ht ht'" using cfg1 g(8) by (rule same_cfg_trans)
    ultimately show ?thesis
      using g sc nin a0 f k1 n1 by (intro exI[of _ ht'] exI[of _ m'] exI[of _ cs']) simp
  next
    case False
    then have "ht_divchn_insert malloc ht m k e = Some (ht1, m1)"
      using ins by (auto simp: saturated_def)
    moreover have "ht_inv ht1 m1 ?cs" using inv1 False by (auto simp: ht_inv_def)
    ultimately show ?thesis
      using sc nin a0 f k1 n1 cfg1 by (intro exI[of _ ht1] exI[of _ m1] exI[of _ ?cs]) simp
  qed
qed

lemma ht_insert_no_memory:
  assumes inv: "ht_inv ht m cs"
    and absent: "first_match (probe ht m k) (cs ! unat (hash ht k)) = 0"
    and al: "malloc (live m) (unat (key_size ht) + unat (elt_size ht)) = None"
  shows "ht_divchn_insert malloc ht m k e = None"
proof -
  from inv have inv0: "ht_inv0 ht m cs" by (simp add: ht_inv_def)
  note b = ht_inv0_bucket[OF inv0, of k]
  have s: "dll_search_key m (key_elts ht ! unat (hash ht k)) (Some k) (key_size ht) (cmp_key ht)
      = Some 0"
    using b(3) absent by (simp add: dll_search_key_ring)
  show ?thesis
    unfolding ht_divchn_insert_def Let_def
    using b(2) al by (simp add: s dll_prepend_new_def)
qed

text \<open>Initialisation.\<close>

lemma ladder_0: "ladder ! 0 = (0, 1)"
  unfolding ladder_eq by simp

lemma ht_init_ok:
  fixes blk :: "'a::len ht_divchn"
  assumes ok: "size_t_ok TYPE('a)"
  shows "\<exists>ht. ht_divchn_init blk ks es mn an ld cmp rdc fe = Some ht
        \<and> ht_inv ht m (replicate (unat (count ht)) [])
        \<and> num_elts ht = 0 \<and> key_elts ht = replicate (unat (count ht)) 0
        \<and> key_size ht = ks \<and> elt_size ht = es \<and> alpha_n ht = an \<and> log_alpha_d ht = ld
        \<and> cmp_key ht = cmp \<and> rdc_key ht = rdc \<and> free_elt ht = fe"
proof -
  have W: "16 \<le> LENGTH('a)" using ok by (simp add: size_t_ok_def)
  have i0: "0 < length ladder" by (simp add: len_ladder)
  define ht5 where "ht5 = blk\<lparr>key_size := ks, elt_size := es, elt_alignment := 1,
      group_ix := 0, count_ix := 0\<rparr>"
  have t: "tab C_PARTS_PER_PRIME (0 :: 'a word) = Some 1"
    using tab_of_nat[OF W, of 0 C_PARTS_PER_PRIME] by (simp add: C_PARTS_PER_PRIME_def)
  have bp: "build_prime (0 :: 'a word) 1 = Some (of_nat (C_PRIMES ! 0))"
    using ladder_prime(2)[OF ok i0 ladder_0] by simp
  have small: "C_PRIMES ! 0 < 2 ^ LENGTH('a)"
  proof -
    have "C_PRIMES ! 0 < 2 ^ 16" by (simp add: C_PRIMES_def)
    also have "(2::nat) ^ 16 \<le> 2 ^ LENGTH('a)" using W by (rule power_increasing) simp
    finally show ?thesis .
  qed
  define ht7 where "ht7 = ht5\<lparr>count := of_nat (C_PRIMES ! 0),
      max_num_elts := mul_alpha_sz_max (of_nat (C_PRIMES ! 0)) an ld\<rparr>"
  have at: "ladder_at ht7 0"
    using small by (simp add: ladder_at_def ht7_def ht5_def ladder_0 len_ladder)
  from incr_count_while_at[OF ok at, of mn] obtain ht8 where
    w: "incr_count_while mn ht7 = Some ht8" and sr: "same_rest ht7 ht8"
    and c8: "count ht8 \<noteq> 0" and l8: "saturated ht8 \<or> (\<exists>j. ladder_at ht8 j)"
    by blast
  define ht9 where "ht9 = ht8\<lparr>num_elts := 0, alpha_n := an, log_alpha_d := ld,
      key_elts := replicate (unat (count ht8)) 0, cmp_key := cmp, rdc_key := rdc, free_elt := fe\<rparr>"
  have r: "ht_divchn_init blk ks es mn an ld cmp rdc fe = Some ht9"
    unfolding ht_divchn_init_def Let_def
    using w by (simp add: t bp ht5_def ht7_def ht9_def dll_init_def)
  have l9: "saturated ht9 \<or> (\<exists>j. ladder_at ht9 j)"
    using l8 by (simp add: saturated_def ladder_at_def ht9_def)
  have "ht_inv0 ht9 m (replicate (unat (count ht9)) [])"
    using c8 l9 chains_empty[of m "unat (count ht8)"] by (simp add: ht_inv0_def ht9_def)
  then have "ht_inv ht9 m (replicate (unat (count ht9)) [])"
    by (simp add: ht_inv_def ht9_def)
  moreover have "key_size ht9 = ks" "elt_size ht9 = es"
    using sr by (simp_all add: same_rest_def ht9_def ht7_def ht5_def)
  ultimately show ?thesis
    using r by (intro exI[of _ ht9]) (simp add: ht9_def)
qed

lemma reachable_inv:
  fixes ht :: "'a::len ht_divchn"
  assumes ok: "size_t_ok TYPE('a)" and mok: "malloc_ok malloc"
  shows "reachable malloc ht m \<Longrightarrow> \<exists>cs. ht_inv ht m cs"
proof (induction rule: reachable.induct)
  case (init blk ks es min_num a_n log_a_d cmp rdc fe ht m)
  from ht_init_ok[OF ok, of blk ks es min_num a_n log_a_d cmp rdc fe m] init
  show ?case by auto
next
  case (insert ht m k e ht' m')
  then obtain cs where inv: "ht_inv ht m cs" by blast
  show ?case
  proof (cases "first_match (probe ht m k) (cs ! unat (hash ht k)) = 0")
    case True
    show ?thesis
    proof (cases "malloc (live m) (unat (key_size ht) + unat (elt_size ht))")
      case None
      have "ht_divchn_insert malloc ht m k e = None"
        using inv True None by (rule ht_insert_no_memory)
      then show ?thesis using insert.hyps(3) by simp
    next
      case (Some a)
      have "\<exists>ht' m' cs'. ht_divchn_insert malloc ht m k e = Some (ht', m') \<and> ht_inv ht' m' cs'
        \<and> set (concat cs') = insert a (set (concat cs)) \<and> a \<notin> set (concat cs) \<and> a \<noteq> 0
        \<and> live m' = insert a (live m) \<and> key m' = (key m)(a := k)
        \<and> elt m' = (elt m)(a := take (unat (elt_size ht)) e) \<and> freed m' = freed m
        \<and> same_cfg ht ht' \<and> num_elts ht' = num_elts ht + 1"
        using ok mok inv True insert.hyps(2) Some by (rule ht_insert_absent)
      then show ?thesis using insert.hyps(3) by auto
    qed
  next
    case False
    have "ht_divchn_insert malloc ht m k e
        = Some (ht, store_elt ht m (first_match (probe ht m k) (cs ! unat (hash ht k))) e)"
      using inv refl False by (rule ht_insert_found(1))
    moreover have "ht_inv ht (store_elt ht m (first_match (probe ht m k) (cs ! unat (hash ht k))) e) cs"
      using inv refl False by (rule ht_insert_found(2))
    ultimately show ?thesis using insert.hyps(3) by auto
  qed
next
  case (remove ht m k out ht' m' out')
  then obtain cs where inv: "ht_inv ht m cs" by blast
  then have inv0: "ht_inv0 ht m cs" by (simp add: ht_inv_def)
  show ?case
  proof (cases "first_match (probe ht m k) (cs ! unat (hash ht k)) = 0")
    case True
    then have "ht_divchn_search ht m k = Some 0" using ht_search_inv0[OF inv0, of k] by simp
    from ht_absent_noop(1)[OF this, of out] remove.hyps(2) inv show ?thesis by auto
  next
    case False
    have "\<exists>m' h'. ht_divchn_remove ht m k out
          = Some (ht\<lparr>key_elts := (key_elts ht)[unat (hash ht k) := h'],
                     num_elts := num_elts ht - 1\<rparr>, m',
                  memcpy out (elt m (first_match (probe ht m k) (cs ! unat (hash ht k))))
                    (unat (elt_size ht)))
        \<and> ht_inv (ht\<lparr>key_elts := (key_elts ht)[unat (hash ht k) := h'],
                     num_elts := num_elts ht - 1\<rparr>) m'
             (cs[unat (hash ht k) := remove1 (first_match (probe ht m k) (cs ! unat (hash ht k)))
                   (cs ! unat (hash ht k))])
        \<and> live m' = live m - {first_match (probe ht m k) (cs ! unat (hash ht k))}
        \<and> key m' = key m \<and> elt m' = elt m \<and> freed m' = freed m"
      using inv refl False by (rule ht_remove_found)
    then show ?thesis using remove.hyps(2) by auto
  qed
next
  case (delete ht m k ht' m')
  then obtain cs where inv: "ht_inv ht m cs" by blast
  then have inv0: "ht_inv0 ht m cs" by (simp add: ht_inv_def)
  show ?case
  proof (cases "first_match (probe ht m k) (cs ! unat (hash ht k)) = 0")
    case True
    then have "ht_divchn_search ht m k = Some 0" using ht_search_inv0[OF inv0, of k] by simp
    from ht_absent_noop(2)[OF this] delete.hyps(2) inv show ?thesis by auto
  next
    case False
    have "\<exists>m' h'. ht_divchn_delete ht m k
          = Some (ht\<lparr>key_elts := (key_elts ht)[unat (hash ht k) := h'],
                     num_elts := num_elts ht - 1\<rparr>, m')
        \<and> ht_inv (ht\<lparr>key_elts := (key_elts ht)[unat (hash ht k) := h'],
                     num_elts := num_elts ht - 1\<rparr>) m'
             (cs[unat (hash ht k) := remove1 (first_match (probe ht m k) (cs ! unat (hash ht k)))
                   (cs ! unat (hash ht k))])"
      using ht_delete_found[of ht m cs k, OF inv refl False] by blast
    then show ?thesis using delete.hyps(2) by auto
  qed
qed

lemma first_match_unique:
  "a \<in> set ns \<Longrightarrow> P a \<Longrightarrow> (\<forall>x\<in>set ns. x \<noteq> a \<longrightarrow> \<not> P x) \<Longrightarrow> first_match P ns = a"
  by (induction ns) auto

lemma first_match_zero: "(\<forall>x\<in>set ns. \<not> P x) \<Longrightarrow> first_match P ns = 0"
  by (induction ns) auto

lemma concat_remove1:
  assumes d: "distinct (concat cs)" and j: "j < length cs" and a: "a \<in> set (cs ! j)"
  shows "set (concat (cs[j := remove1 a (cs ! j)])) = set (concat cs) - {a}"
proof -
  have c: "cs = take j cs @ (cs ! j) # drop (Suc j) cs"
    using j by (simp add: id_take_nth_drop)
  have u: "cs[j := remove1 a (cs ! j)] = take j cs @ remove1 a (cs ! j) # drop (Suc j) cs"
    using j by (simp add: upd_conv_take_nth_drop)
  have "distinct (concat (take j cs @ (cs ! j) # drop (Suc j) cs))" using d c by simp
  then have dd: "distinct (cs ! j)"
    "set (concat (take j cs)) \<inter> set (cs ! j) = {}"
    "set (cs ! j) \<inter> set (concat (drop (Suc j) cs)) = {}"
    by (auto simp del: set_concat)
  have "set (concat cs) = set (concat (take j cs)) \<union> set (cs ! j) \<union> set (concat (drop (Suc j) cs))"
    by (subst c) (simp del: set_concat add: Un_assoc)
  moreover have "set (concat (cs[j := remove1 a (cs ! j)]))
      = set (concat (take j cs)) \<union> (set (cs ! j) - {a}) \<union> set (concat (drop (Suc j) cs))"
    by (subst u) (simp del: set_concat add: Un_assoc dd(1))
  ultimately show ?thesis using dd a by (auto simp del: set_concat)
qed

lemma in_bucket:
  assumes inv0: "ht_inv0 ht m cs" and a: "a \<in> set (concat cs)"
  shows "a \<in> set (cs ! unat (hash ht (key m a)))"
proof -
  from a obtain c where c: "c \<in> set cs" "a \<in> set c" by auto
  then obtain b where b: "b < length cs" "cs ! b = c" by (auto simp: in_set_conv_nth)
  have "unat (hash ht (key m a)) = b"
    using ht_inv0_hashed[OF inv0] b c by (auto simp: hashed_def)
  then show ?thesis using b c by simp
qed

lemma absent_nodes:
  assumes inv0: "ht_inv0 ht m cs" and ab: "absent ht m k" and a: "a \<in> set (concat cs)"
  shows "\<not> probe ht m k a"
proof -
  from a obtain c where c: "c \<in> set cs" "a \<in> set c" by auto
  then obtain b where b: "b < length cs" "cs ! b = c" by (auto simp: in_set_conv_nth)
  have ch: "chains m (key_elts ht) cs" using inv0 by (simp add: ht_inv0_def)
  have r: "ring m (key_elts ht ! b) (cs ! b)" using ch b(1) by (rule chains_nth)
  have "b < length (key_elts ht)" using chains_length[OF ch] b(1) by simp
  then have "dll_search_key m (key_elts ht ! b) (Some k) (key_size ht) (cmp_key ht) = Some 0"
    using ab by (simp add: absent_def)
  then have "first_match (probe ht m k) (cs ! b) = 0"
    using dll_search_key_ring[OF r, of k "key_size ht" "cmp_key ht"] by simp
  moreover have "0 \<notin> set (cs ! b)" using ring_nodes[OF r] by simp
  ultimately show ?thesis using first_match_none[of "probe ht m k" "cs ! b" a] b c by simp
qed

lemma absent_search:
  assumes inv0: "ht_inv0 ht m cs" and ab: "absent ht m k"
  shows "first_match (probe ht m k) (cs ! unat (hash ht k)) = 0"
proof -
  note b = ht_inv0_bucket[OF inv0, of k]
  have "\<forall>x\<in>set (cs ! unat (hash ht k)). \<not> probe ht m k x"
    using absent_nodes[OF inv0 ab] nth_concat_subset[OF b(1)] by blast
  then show ?thesis by (rule first_match_zero)
qed

lemma store_elt_elt:
  "length e = unat (elt_size ht) \<Longrightarrow>
   elt (store_elt ht m n e)
     = (elt m)(n := e @ drop (length e) (case free_elt ht of None \<Rightarrow> elt m n | Some f \<Rightarrow> f (elt m n)))"
  by (simp add: store_elt_def run_free_elt_def memcpy_def Let_def split: option.splits)

lemma store_elt_freed:
  "freed (store_elt ht m n e)
     = freed m @ (case free_elt ht of None \<Rightarrow> [] | Some f \<Rightarrow> [elt m n])"
  by (simp add: store_elt_def run_free_elt_def Let_def split: option.splits)


section \<open>A run on a 64-bit host\<close>

lemma ex_tab: "tab C_PARTS_PER_PRIME (0 :: 64 word) = Some 1"
  by (simp add: tab_def C_PARTS_PER_PRIME_def)

lemma ex_build0: "build_prime (0 :: 64 word) 1 = Some 1543"
  by (simp add: build_prime_def tab_def C_PRIME_PARTS_def C_BUILD_SHIFT_def)

lemma ex_build1: "build_prime (1 :: 64 word) 1 = Some 3119"
  by (simp add: build_prime_def tab_def C_PRIME_PARTS_def C_BUILD_SHIFT_def)

lemma ex_overflow1: "is_overflow (1 :: 64 word) 1 = Some False"
  by (simp add: is_overflow_def tab_def C_PRIME_PARTS_def C_BUILD_SHIFT_def C_FULL_BIT_def
      C_BYTE_BIT_def sizeof_size_t_def bit_count.simps)

lemma ex_max:
  "mul_alpha_sz_max (1543 :: 64 word) 3 3 = 578"
  "mul_alpha_sz_max (3119 :: 64 word) 2 1 = 3119"
  "mul_alpha_sz_max (3119 :: 64 word) 3 3 = 1169"
  "mul_alpha_sz_max (6211 :: 64 word) 3 3 = 2329"
  "mul_alpha_sz_max (1543 :: 64 word) 1 11 = 0"
  "mul_alpha_sz_max (3119 :: 64 word) 1 11 = 1"
  by (simp_all add: mul_alpha_sz_max_def mul_ext_def C_FULL_BIT_def C_BYTE_BIT_def
      sizeof_size_t_def drop_bit_eq_div push_bit_eq_mult)

lemma ex_while0: "\<not> n > max_num_elts ht \<Longrightarrow> incr_count_while n ht = Some ht"
  by (subst incr_count_while.simps) simp

lemma ex_init: "ht_divchn_init (blk :: 64 ht_divchn) 8 8 0 3 3 None None None = Some (ht_example 8)"
  by (cases blk)
     (simp add: ht_divchn_init_def Let_def ex_tab ex_build0 ex_max ex_while0 ht_example_def
        dll_init_def)

lemma ex_incr1:
  "incr_count ((ht_example 8)\<lparr>alpha_n := a, log_alpha_d := d\<rparr>)
     = Some (True, (ht_example 8)\<lparr>alpha_n := a, log_alpha_d := d, count_ix := 1, count := 3119,
                max_num_elts := mul_alpha_sz_max 3119 a d\<rparr>)"
  by (simp add: incr_count_def ht_example_def tab_def C_PARTS_PER_PRIME_def C_PARTS_ACC_COUNTS_def
     C_PRIME_PARTS_COUNT_def Let_def ex_overflow1 ex_build1)

lemma ex_while_step:
  "n > max_num_elts ht \<Longrightarrow> incr_count ht = Some (True, ht')
    \<Longrightarrow> incr_count_while n ht = incr_count_while n ht'"
  by (subst incr_count_while.simps) simp

lemma ex_while1:
  "incr_count_while 2000 ((ht_example 8)\<lparr>alpha_n := 2, log_alpha_d := 1\<rparr>)
     = Some ((ht_example 8)\<lparr>alpha_n := 2, log_alpha_d := 1, count_ix := 1, count := 3119,
                max_num_elts := 3119\<rparr>)"
proof -
  have "incr_count_while 2000 ((ht_example 8)\<lparr>alpha_n := 2, log_alpha_d := 1\<rparr>)
      = incr_count_while 2000 ((ht_example 8)\<lparr>alpha_n := 2, log_alpha_d := 1, count_ix := 1,
          count := 3119, max_num_elts := mul_alpha_sz_max 3119 2 1\<rparr>)"
    by (rule ex_while_step) (simp_all add: ex_incr1, simp add: ht_example_def)
  also have "\<dots> = Some ((ht_example 8)\<lparr>alpha_n := 2, log_alpha_d := 1, count_ix := 1,
      count := 3119, max_num_elts := 3119\<rparr>)"
    by (simp add: ex_max ex_while0)
  finally show ?thesis .
qed

lemma ex_init_stale:
  "ht_divchn_init ((ht_example 8)\<lparr>alpha_n := 2, log_alpha_d := 1\<rparr>) 8 8 2000 3 3 None None None
     = Some ((ht_example 8)\<lparr>count_ix := 1, count := 3119, max_num_elts := 3119,
               key_elts := replicate 3119 0\<rparr>)"
proof -
  have s: "(ht_example 8)\<lparr>alpha_n := 2, log_alpha_d := 1, key_size := 8, elt_size := 8,
       elt_alignment := 1, group_ix := 0, count_ix := 0, count := 1543, max_num_elts := 578\<rparr>
     = (ht_example 8)\<lparr>alpha_n := 2, log_alpha_d := 1\<rparr>"
    by (simp add: ht_example_def)
  show ?thesis
    unfolding ht_divchn_init_def Let_def
    by (simp add: ex_tab ex_build0 ex_max s ex_while1 dll_init_def) (simp add: ht_example_def)
qed

lemma malloc_example_ok: "malloc_ok malloc_example"
  by (auto simp: malloc_ok_def malloc_example_def split: if_splits)

lemma ex_init_small:
  "ht_divchn_init (blk :: 64 ht_divchn) 8 8 0 1 11 None None fe = Some (ht_small fe)"
  by (cases blk)
     (simp add: ht_divchn_init_def Let_def ex_tab ex_build0 ex_max ex_while0 ht_example_def
        ht_small_def dll_init_def)

lemma ex_key:
  fixes ht :: "64 ht_divchn"
  assumes "key_size ht = 8" and "rdc_key ht = None"
  shows "convert_std_key ht [1, 0, 0, 0, 0, 0, 0, 0] = 1"
    and "convert_std_key ht [2, 0, 0, 0, 0, 0, 0, 0] = 2"
  using assms
  by (simp_all add: convert_std_key_def sizeof_size_t_def C_BYTE_BIT_def
        add_buf_def memcpy_def upt_rec nth_Cons')

lemma rehash_chain_null: "rehash_chain ht m 0 = Some (ht, m)"
  by (subst rehash_chain.simps) simp

lemma rehash_nulls: "rehash ht m (replicate n 0) = Some (ht, m)"
  by (induction n) (simp_all add: rehash_chain_null)

lemma ex_buckets: "(replicate 1543 (0 :: 64 word))[1 := 1] = 0 # 1 # replicate 1541 0"
proof -
  have "replicate 1543 (0 :: 64 word) = replicate (Suc (Suc 1541)) 0" by simp
  then show ?thesis by (simp only: replicate_Suc list_update_code) simp
qed

lemma ex_grow_while:
  "incr_count_while 1 ((ht_small fe)\<lparr>key_elts := ks, num_elts := 1\<rparr>)
     = Some ((ht_small fe)\<lparr>key_elts := ks, num_elts := 1, count_ix := 1, count := 3119, max_num_elts := 1\<rparr>)"
proof -
  have i: "incr_count ((ht_small fe)\<lparr>key_elts := ks, num_elts := 1\<rparr>)
     = Some (True, (ht_small fe)\<lparr>key_elts := ks, num_elts := 1, count_ix := 1, count := 3119,
          max_num_elts := 1\<rparr>)"
    by (simp add: incr_count_def ht_small_def ht_example_def tab_def C_PARTS_PER_PRIME_def
        C_PARTS_ACC_COUNTS_def C_PRIME_PARTS_COUNT_def Let_def ex_overflow1 ex_build1 ex_max)
  have "incr_count_while 1 ((ht_small fe)\<lparr>key_elts := ks, num_elts := 1\<rparr>)
      = incr_count_while 1 ((ht_small fe)\<lparr>key_elts := ks, num_elts := 1, count_ix := 1, count := 3119,
          max_num_elts := 1\<rparr>)"
    by (rule ex_while_step) (simp add: ht_small_def, rule i)
  also have "\<dots> = Some ((ht_small fe)\<lparr>key_elts := ks, num_elts := 1, count_ix := 1, count := 3119,
      max_num_elts := 1\<rparr>)"
    by (simp add: ex_while0)
  finally show ?thesis .
qed

lemma ex_prepend_new:
  "dll_prepend_new malloc_example mem_empty 0 [1, 0, 0, 0, 0, 0, 0, 0] [7, 0, 0, 0, 0, 0, 0, 0] 8 8
     = Some (mem_one, 1)"
  by (simp add: dll_prepend_new_def malloc_example_def mem_empty_def mem_one_def Let_def memcpy_def)

lemma ex_rehash_chain:
  fixes ht :: "64 ht_divchn"
  assumes "key_size ht = 8" and "rdc_key ht = None" and "count ht = 3119"
    and "key_elts ht = replicate 3119 0"
  shows "rehash_chain ht mem_one 1 = Some (ht\<lparr>key_elts := (replicate 3119 0)[1 := 1]\<rparr>, mem_one)"
proof -
  have r: "dll_remove mem_one 1 1 = Some (mem_one, 0)"
    by (simp add: dll_remove_def valid_def mem_one_def)
  have h: "unat (hash ht (key mem_one 1)) = 1"
    using assms by (simp add: hash_def ex_key mem_one_def)
  have p: "dll_prepend mem_one 0 1 = Some (mem_one, 1)"
    by (simp add: dll_prepend_def valid_def mem_one_def)
  show ?thesis
    by (subst rehash_chain.simps) (simp add: r h p assms rehash_chain_null)
qed

lemma ex_insert_grow:
  "ht_divchn_insert malloc_example (ht_small fe) mem_empty [1, 0, 0, 0, 0, 0, 0, 0] [7, 0, 0, 0, 0, 0, 0, 0]
     = Some (ht_grown fe, mem_one)"
proof -
  have h: "unat (hash (ht_small fe) [1, 0, 0, 0, 0, 0, 0, 0]) = 1"
    by (simp add: hash_def ex_key ht_small_def ht_example_def)
  have f: "key_elts (ht_small fe) = replicate 1543 0" "key_size (ht_small fe) = 8"
    "elt_size (ht_small fe) = 8" "cmp_key (ht_small fe) = None" "num_elts (ht_small fe) = 0"
    "count (ht_small fe) = 1543"
    by (simp_all add: ht_small_def ht_example_def)
  have s: "dll_search_key mem_empty 0 (Some [1, 0, 0, 0, 0, 0, 0, 0]) 8 None = Some 0"
    by (simp add: dll_search_key_def dll_search_key_trace_def)
  have c: "max_num_elts ((ht_small fe)\<lparr>key_elts := ks, num_elts := 1\<rparr>) < num_elts ((ht_small fe)\<lparr>key_elts := ks, num_elts := 1\<rparr>)
      \<and> count_ix ((ht_small fe)\<lparr>key_elts := ks, num_elts := 1\<rparr>) \<noteq> C_SIZE_MAX
      \<and> count_ix ((ht_small fe)\<lparr>key_elts := ks, num_elts := 1\<rparr>) \<noteq> of_nat C_PRIME_PARTS_COUNT" for ks
    by (simp add: ht_small_def ht_example_def C_SIZE_MAX_def C_PRIME_PARTS_COUNT_def)
  define Y where "Y = (ht_small fe)\<lparr>num_elts := 1, count_ix := 1, count := 3119, max_num_elts := 1,
      key_elts := replicate 3119 0\<rparr>"
  have Y: "key_size Y = 8" "rdc_key Y = None" "count Y = 3119" "key_elts Y = replicate 3119 0"
    by (simp_all add: Y_def ht_small_def ht_example_def)
  have "ht_grow ((ht_small fe)\<lparr>key_elts := (replicate 1543 0)[1 := 1], num_elts := 1\<rparr>) mem_one
      = rehash Y mem_one ((replicate 1543 0)[1 := 1])"
    unfolding ht_grow_def Let_def Y_def
    by (simp add: ex_grow_while f dll_init_def)
  also have "\<dots> = rehash Y mem_one (0 # 1 # replicate 1541 0)"
    by (simp only: ex_buckets)
  also have "\<dots> = Some (Y\<lparr>key_elts := (replicate 3119 0)[1 := 1]\<rparr>, mem_one)"
    by (simp add: rehash_chain_null ex_rehash_chain[OF Y] rehash_nulls)
  also have "Y\<lparr>key_elts := (replicate 3119 0)[1 := 1]\<rparr> = ht_grown fe"
    by (simp add: Y_def ht_grown_def)
  finally have g: "ht_grow ((ht_small fe)\<lparr>key_elts := (replicate 1543 0)[1 := 1], num_elts := 1\<rparr>) mem_one
      = Some (ht_grown fe, mem_one)" .
  show ?thesis
    unfolding ht_divchn_insert_def Let_def
    using c g by (simp add: h f s ex_prepend_new)
qed

lemma ex_reachable_small: "reachable malloc_example (ht_small fe) mem_empty"
  using ex_init_small by (rule reachable.init)

lemma ex_reachable_grown: "reachable malloc_example (ht_grown fe) mem_one"
  using ex_reachable_small _ ex_insert_grow
  by (rule reachable.insert) (simp add: ht_small_def ht_example_def)

lemma ex_grown_fields:
  "key_size (ht_grown fe) = 8" "elt_size (ht_grown fe) = 8" "count (ht_grown fe) = 3119"
  "num_elts (ht_grown fe) = 1" "max_num_elts (ht_grown fe) = 1"
  "key_elts (ht_grown fe) = (replicate 3119 0)[1 := 1]" "cmp_key (ht_grown fe) = None"
  "rdc_key (ht_grown fe) = None" "free_elt (ht_grown fe) = fe"
  by (simp_all add: ht_grown_def ht_small_def ht_example_def)

lemma ex_search_grown:
  "ht_divchn_search (ht_grown fe) mem_one [1, 0, 0, 0, 0, 0, 0, 0] = Some 1"
  "ht_divchn_search (ht_grown fe) mem_one [2, 0, 0, 0, 0, 0, 0, 0] = Some 0"
  by (simp_all add: ht_divchn_search_def hash_def ex_key ex_grown_fields Let_def
        dll_search_key_def dll_search_key_trace_def valid_def mem_one_def key_match_def
        memcmp_eq_def)

lemma ex_absent: "absent (ht_small fe) mem_empty k"
  by (simp add: absent_def ht_small_def ht_example_def dll_search_key_def dll_search_key_trace_def)


text \<open>The run on the block that was in use before.\<close>

lemma ex_incr_stale:
  "incr_count ((ht_example 8)\<lparr>alpha_n := 2, log_alpha_d := 1, max_num_elts := 0\<rparr>)
     = Some (True, (ht_example 8)\<lparr>alpha_n := 2, log_alpha_d := 1, count_ix := 1, count := 3119,
                max_num_elts := 3119\<rparr>)"
  by (simp add: incr_count_def ht_example_def tab_def C_PARTS_PER_PRIME_def C_PARTS_ACC_COUNTS_def
     C_PRIME_PARTS_COUNT_def Let_def ex_overflow1 ex_build1 ex_max)

lemma ex_while_stale:
  "incr_count_while 1 ((ht_example 8)\<lparr>alpha_n := 2, log_alpha_d := 1, max_num_elts := 0\<rparr>)
     = Some ((ht_example 8)\<lparr>alpha_n := 2, log_alpha_d := 1, count_ix := 1, count := 3119,
                max_num_elts := 3119\<rparr>)"
proof -
  have "incr_count_while 1 ((ht_example 8)\<lparr>alpha_n := 2, log_alpha_d := 1, max_num_elts := 0\<rparr>)
      = incr_count_while 1 ((ht_example 8)\<lparr>alpha_n := 2, log_alpha_d := 1, count_ix := 1,
          count := 3119, max_num_elts := 3119\<rparr>)"
    by (rule ex_while_step) (simp add: ht_example_def, rule ex_incr_stale)
  also have "\<dots> = Some ((ht_example 8)\<lparr>alpha_n := 2, log_alpha_d := 1, count_ix := 1,
      count := 3119, max_num_elts := 3119\<rparr>)"
    by (rule ex_while0) (simp add: ht_example_def)
  finally show ?thesis .
qed

lemma ex_init_stale_small:
  "ht_divchn_init ((ht_example 8)\<lparr>alpha_n := 2, log_alpha_d := 1\<rparr>) 8 8 1 1 11 None None None
     = Some ht_stale"
proof -
  have s: "(ht_example 8)\<lparr>alpha_n := 2, log_alpha_d := 1, key_size := 8, elt_size := 8,
       elt_alignment := 1, group_ix := 0, count_ix := 0, count := 1543, max_num_elts := 0\<rparr>
     = (ht_example 8)\<lparr>alpha_n := 2, log_alpha_d := 1, max_num_elts := 0\<rparr>"
    by (simp add: ht_example_def)
  show ?thesis
    unfolding ht_divchn_init_def Let_def
    by (simp add: ex_tab ex_build0 ex_max s ex_while_stale dll_init_def)
       (simp add: ht_example_def ht_stale_def)
qed

lemma ex_stale_fields:
  "key_size (ht_stale\<lparr>key_elts := ks, num_elts := n\<rparr>) = 8"
  "elt_size (ht_stale\<lparr>key_elts := ks, num_elts := n\<rparr>) = 8"
  "count (ht_stale\<lparr>key_elts := ks, num_elts := n\<rparr>) = 3119"
  "max_num_elts (ht_stale\<lparr>key_elts := ks, num_elts := n\<rparr>) = 3119"
  "alpha_n (ht_stale\<lparr>key_elts := ks, num_elts := n\<rparr>) = 1"
  "log_alpha_d (ht_stale\<lparr>key_elts := ks, num_elts := n\<rparr>) = 11"
  "count_ix (ht_stale\<lparr>key_elts := ks, num_elts := n\<rparr>) = 1"
  "cmp_key (ht_stale\<lparr>key_elts := ks, num_elts := n\<rparr>) = None"
  "rdc_key (ht_stale\<lparr>key_elts := ks, num_elts := n\<rparr>) = None"
  "key_size ht_stale = 8" "elt_size ht_stale = 8" "count ht_stale = 3119"
  "max_num_elts ht_stale = 3119" "cmp_key ht_stale = None" "rdc_key ht_stale = None"
  "key_elts ht_stale = replicate 3119 0" "num_elts ht_stale = 0" "count_ix ht_stale = 1"
  by (simp_all add: ht_stale_def ht_example_def)

lemma ex_prepend_new_two:
  "dll_prepend_new malloc_example mem_one 0 [2, 0, 0, 0, 0, 0, 0, 0] [9, 0, 0, 0, 0, 0, 0, 0] 8 8
     = Some (mem_two, 2)"
  by (simp add: dll_prepend_new_def malloc_example_def mem_one_def mem_two_def Let_def memcpy_def
        fun_upd_twist insert_commute)

lemma ex_insert_stale1:
  "ht_divchn_insert malloc_example ht_stale mem_empty [1, 0, 0, 0, 0, 0, 0, 0] [7, 0, 0, 0, 0, 0, 0, 0]
     = Some (ht_stale\<lparr>key_elts := (replicate 3119 0)[1 := 1], num_elts := 1\<rparr>, mem_one)"
proof -
  have h: "unat (hash ht_stale [1, 0, 0, 0, 0, 0, 0, 0]) = 1"
    by (simp add: hash_def ex_key ex_stale_fields)
  have s: "dll_search_key mem_empty 0 (Some [1, 0, 0, 0, 0, 0, 0, 0]) 8 None = Some 0"
    by (simp add: dll_search_key_def dll_search_key_trace_def)
  show ?thesis
    unfolding ht_divchn_insert_def Let_def
    by (simp add: h s ex_stale_fields ex_prepend_new)
qed

lemma ex_insert_stale2:
  "ht_divchn_insert malloc_example (ht_stale\<lparr>key_elts := (replicate 3119 0)[1 := 1], num_elts := 1\<rparr>)
       mem_one [2, 0, 0, 0, 0, 0, 0, 0] [9, 0, 0, 0, 0, 0, 0, 0]
     = Some (ht_stale\<lparr>key_elts := (replicate 3119 0)[1 := 1, 2 := 2], num_elts := 2\<rparr>, mem_two)"
proof -
  have h: "unat (hash ht_stale [2, 0, 0, 0, 0, 0, 0, 0]) = 2"
    by (simp add: hash_def ex_key ex_stale_fields)
  have s: "dll_search_key mem_one 0 (Some [2, 0, 0, 0, 0, 0, 0, 0]) 8 None = Some 0"
    by (simp add: dll_search_key_def dll_search_key_trace_def)
  show ?thesis
    unfolding ht_divchn_insert_def Let_def
    by (simp add: h s ex_stale_fields ex_prepend_new_two)
qed


section \<open>The load stays within its bound\<close>

text \<open>
  The bound the code keeps is a bound by the field \<^verbatim>\<open>max_num_elts\<close>, the value
  \<^verbatim>\<open>ht_divchn_insert\<close> compares with. After any completed operation (\<open>reachable\<close>:
  \<^verbatim>\<open>ht_divchn_init\<close>, then any calls of insert, remove and delete that return), if
  \<^verbatim>\<open>num_elts\<close> exceeds that field then \<^verbatim>\<open>count_ix\<close> is \<^verbatim>\<open>C_SIZE_MAX\<close> or
  \<^verbatim>\<open>C_PRIME_PARTS_COUNT\<close>; and an insertion of a key block of \<^verbatim>\<open>key_size\<close> bytes
  returns whenever the allocator has a node to give, with a table of which the same
  holds. Nothing is said here of how the field compares with the load factor bound
  of the table.
\<close>

lemma stored_bound_invariant:
  fixes ht :: "'a::len ht_divchn"
  assumes ok: "size_t_ok TYPE('a)" and mok: "malloc_ok malloc" and r: "reachable malloc ht m"
  shows "(max_num_elts ht < num_elts ht \<longrightarrow> saturated ht)
    \<and> (\<forall>k e. length k = unat (key_size ht)
          \<longrightarrow> malloc (live m) (unat (key_size ht) + unat (elt_size ht)) \<noteq> None
          \<longrightarrow> (\<exists>ht' m'. ht_divchn_insert malloc ht m k e = Some (ht', m')
                 \<and> (max_num_elts ht' < num_elts ht' \<longrightarrow> saturated ht')))"
proof (intro conjI allI impI)
  from reachable_inv[OF ok mok r] obtain cs where inv: "ht_inv ht m cs" ..
  then show "saturated ht" if "max_num_elts ht < num_elts ht"
    using that by (simp add: ht_inv_def)
  fix k e :: "byte list"
  assume lk: "length k = unat (key_size ht)"
    and al: "malloc (live m) (unat (key_size ht) + unat (elt_size ht)) \<noteq> None"
  from al obtain a where a: "malloc (live m) (unat (key_size ht) + unat (elt_size ht)) = Some a"
    by blast
  have "\<exists>ht' m'. ht_divchn_insert malloc ht m k e = Some (ht', m') \<and> (\<exists>cs'. ht_inv ht' m' cs')"
  proof (cases "first_match (probe ht m k) (cs ! unat (hash ht k)) = 0")
    case True
    have "\<exists>ht' m' cs'. ht_divchn_insert malloc ht m k e = Some (ht', m') \<and> ht_inv ht' m' cs'
        \<and> set (concat cs') = insert a (set (concat cs)) \<and> a \<notin> set (concat cs) \<and> a \<noteq> 0
        \<and> live m' = insert a (live m) \<and> key m' = (key m)(a := k)
        \<and> elt m' = (elt m)(a := take (unat (elt_size ht)) e) \<and> freed m' = freed m
        \<and> same_cfg ht ht' \<and> num_elts ht' = num_elts ht + 1"
      using ok mok inv True lk a by (rule ht_insert_absent)
    then show ?thesis by blast
  next
    case False
    have "ht_divchn_insert malloc ht m k e
        = Some (ht, store_elt ht m (first_match (probe ht m k) (cs ! unat (hash ht k))) e)"
      using inv refl False by (rule ht_insert_found(1))
    moreover have "ht_inv ht (store_elt ht m (first_match (probe ht m k) (cs ! unat (hash ht k))) e) cs"
      using inv refl False by (rule ht_insert_found(2))
    ultimately show ?thesis by blast
  qed
  then show "\<exists>ht' m'. ht_divchn_insert malloc ht m k e = Some (ht', m')
      \<and> (max_num_elts ht' < num_elts ht' \<longrightarrow> saturated ht')"
    by (auto simp: ht_inv_def)
qed

lemma stored_bound_invariant_example:
  "size_t_ok TYPE(64) \<and> malloc_ok malloc_example
   \<and> reachable malloc_example (ht_grown None) mem_one
   \<and> num_elts (ht_grown None) = 1 \<and> max_num_elts (ht_grown None) = 1
   \<and> (\<exists>ht' m'. ht_divchn_insert malloc_example (ht_grown None) mem_one
                   [2, 0, 0, 0, 0, 0, 0, 0] [9, 0, 0, 0, 0, 0, 0, 0] = Some (ht', m')
          \<and> (num_elts ht' \<le> max_num_elts ht' \<or> saturated ht'))"
proof -
  note th = stored_bound_invariant[OF size_t_ok_64 malloc_example_ok ex_reachable_grown[of None]]
  have l: "length [2, 0, 0, 0, 0, 0, 0, 0 :: byte] = unat (key_size (ht_grown None))"
    by (simp add: ex_grown_fields)
  have a: "malloc_example (live mem_one)
      (unat (key_size (ht_grown None)) + unat (elt_size (ht_grown None))) \<noteq> None"
    by (simp add: malloc_example_def mem_one_def)
  from th l a have "\<exists>ht' m'. ht_divchn_insert malloc_example (ht_grown None) mem_one
      [2, 0, 0, 0, 0, 0, 0, 0] [9, 0, 0, 0, 0, 0, 0, 0] = Some (ht', m')
      \<and> (max_num_elts ht' < num_elts ht' \<longrightarrow> saturated ht')"
    by blast
  then have "\<exists>ht' m'. ht_divchn_insert malloc_example (ht_grown None) mem_one
      [2, 0, 0, 0, 0, 0, 0, 0] [9, 0, 0, 0, 0, 0, 0, 0] = Some (ht', m')
      \<and> (num_elts ht' \<le> max_num_elts ht' \<or> saturated ht')"
    by (auto simp: not_less)
  then show ?thesis
    using size_t_ok_64 malloc_example_ok ex_reachable_grown[of None]
    by (simp add: ex_grown_fields)
qed


text \<open>
  Claim C3. The bound on the number of keys of a table with the modulus \<^verbatim>\<open>count\<close> and
  the load factor bound \<^verbatim>\<open>alpha_n / 2^log_alpha_d\<close> is
  \<^verbatim>\<open>mul_alpha_sz_max(count, alpha_n, log_alpha_d)\<close>. \<^verbatim>\<open>ht_divchn_init\<close> runs its loop
  over \<^verbatim>\<open>incr_count\<close> before it assigns \<^verbatim>\<open>alpha_n\<close> and \<^verbatim>\<open>log_alpha_d\<close>, so that the
  field \<^verbatim>\<open>max_num_elts\<close> the loop leaves is computed from what the block held before.
  On a 64-bit host, on a block in which the two fields are 2 and 1, the call
  \<^verbatim>\<open>ht_divchn_init(ht, 8, 8, 1, 1, 11, NULL, NULL, NULL)\<close> followed by the insertion of
  the keys 1 and 2 returns a table with the modulus 3119 and 2 keys. Under its load
  factor bound \<open>1 / 2048\<close> the bound of 3119 is 1, which the 2 keys exceed, and the ladder
  is neither saturated nor exhausted: \<^verbatim>\<open>count_ix\<close> is 1. The second insertion raised the
  number of keys above the bound and did not grow the table, since the field
  \<^verbatim>\<open>max_num_elts\<close> it compares with is 3119.
\<close>

theorem ht_divchn_insert_stale_load_factor:
  "ht_divchn_init ((ht_example 8)\<lparr>alpha_n := 2, log_alpha_d := 1\<rparr>) 8 8 1 1 11 None None None
     = Some ht_stale
   \<and> ht_divchn_insert malloc_example ht_stale mem_empty
        [1, 0, 0, 0, 0, 0, 0, 0] [7, 0, 0, 0, 0, 0, 0, 0]
      = Some (ht_stale\<lparr>key_elts := (replicate 3119 0)[1 := 1], num_elts := 1\<rparr>, mem_one)
   \<and> ht_divchn_insert malloc_example
        (ht_stale\<lparr>key_elts := (replicate 3119 0)[1 := 1], num_elts := 1\<rparr>) mem_one
        [2, 0, 0, 0, 0, 0, 0, 0] [9, 0, 0, 0, 0, 0, 0, 0]
      = Some (ht_stale\<lparr>key_elts := (replicate 3119 0)[1 := 1, 2 := 2], num_elts := 2\<rparr>, mem_two)
   \<and> num_elts (ht_stale\<lparr>key_elts := (replicate 3119 0)[1 := 1, 2 := 2], num_elts := 2\<rparr>) = 2
   \<and> count (ht_stale\<lparr>key_elts := (replicate 3119 0)[1 := 1, 2 := 2], num_elts := 2\<rparr>) = 3119
   \<and> alpha_n (ht_stale\<lparr>key_elts := (replicate 3119 0)[1 := 1, 2 := 2], num_elts := 2\<rparr>) = 1
   \<and> log_alpha_d (ht_stale\<lparr>key_elts := (replicate 3119 0)[1 := 1, 2 := 2], num_elts := 2\<rparr>) = 11
   \<and> mul_alpha_sz_max (3119 :: 64 word) 1 11 = 1
   \<and> max_num_elts (ht_stale\<lparr>key_elts := (replicate 3119 0)[1 := 1, 2 := 2], num_elts := 2\<rparr>) = 3119
   \<and> \<not> saturated (ht_stale\<lparr>key_elts := (replicate 3119 0)[1 := 1, 2 := 2], num_elts := 2\<rparr>)"
  using ex_insert_stale1 ex_insert_stale2
  by (simp add: ex_init_stale_small ex_stale_fields ex_max
        saturated_def C_SIZE_MAX_def C_PRIME_PARTS_COUNT_def)


section \<open>Every node is in the bucket of its key\<close>

text \<open>
  Claim C7. After any completed operation, a growth of the table included (it is a part
  of the insertion that causes it), there are \<^verbatim>\<open>count\<close> buckets, every bucket \<open>b\<close> is the
  head of a ring of nodes \<open>cs ! b\<close>, the nodes reached from \<^verbatim>\<open>key_elts[b]\<close> by following
  \<^verbatim>\<open>next\<close>, and the key of every node of that ring is hashed to \<open>b\<close> under the current
  modulus \<^verbatim>\<open>count\<close>.
\<close>

theorem ht_divchn_buckets_hashed:
  fixes ht :: "'a::len ht_divchn"
  assumes ok: "size_t_ok TYPE('a)" and mok: "malloc_ok malloc" and r: "reachable malloc ht m"
  shows "\<exists>cs. length cs = length (key_elts ht) \<and> length (key_elts ht) = unat (count ht)
      \<and> (\<forall>b<length (key_elts ht).
            ring m (key_elts ht ! b) (cs ! b)
          \<and> (\<forall>a\<in>set (cs ! b). unat (hash ht (key m a)) = b))"
proof -
  from reachable_inv[OF ok mok r] obtain cs where inv: "ht_inv ht m cs" ..
  then have inv0: "ht_inv0 ht m cs" by (simp add: ht_inv_def)
  have ch: "chains m (key_elts ht) cs" and lc: "length cs = unat (count ht)"
    using inv0 by (simp_all add: ht_inv0_def)
  have l: "length (key_elts ht) = length cs" using ch by (rule chains_length)
  have "ring m (key_elts ht ! b) (cs ! b) \<and> (\<forall>a\<in>set (cs ! b). unat (hash ht (key m a)) = b)"
    if "b < length (key_elts ht)" for b
    using that l chains_nth[OF ch, of b] ht_inv0_hashed[OF inv0] by (simp add: hashed_def)
  then show ?thesis using l lc by (intro exI[of _ cs]) simp
qed

theorem ht_divchn_buckets_hashed_witness:
  "size_t_ok TYPE(64) \<and> malloc_ok malloc_example
   \<and> reachable malloc_example (ht_grown None) mem_one
   \<and> count (ht_grown None) = 3119 \<and> key_elts (ht_grown None) ! 1 = 1
   \<and> (\<exists>cs. length cs = 3119 \<and> ring mem_one 1 (cs ! 1) \<and> 1 \<in> set (cs ! 1))
   \<and> unat (hash (ht_grown None) (key mem_one 1)) = 1"
proof -
  from ht_divchn_buckets_hashed[OF size_t_ok_64 malloc_example_ok ex_reachable_grown[of None]]
  obtain cs where l: "length cs = length (key_elts (ht_grown None))"
    and b: "\<forall>b<length (key_elts (ht_grown None)).
            ring mem_one (key_elts (ht_grown None) ! b) (cs ! b)
          \<and> (\<forall>a\<in>set (cs ! b). unat (hash (ht_grown None) (key mem_one a)) = b)"
    by blast
  have h: "key_elts (ht_grown None) ! 1 = 1" "length (key_elts (ht_grown None)) = 3119"
    by (simp_all add: ex_grown_fields)
  have r: "ring mem_one 1 (cs ! 1)"
    and hs: "\<forall>a\<in>set (cs ! 1). unat (hash (ht_grown None) (key mem_one a)) = 1"
    using b[rule_format, of 1] h by simp_all
  have m: "(1 :: 64 word) \<in> set (cs ! 1)"
    using r by (cases "cs ! 1") (simp_all add: ring_def)
  then have "unat (hash (ht_grown None) (key mem_one 1)) = 1" using hs by blast
  moreover have "\<exists>cs. length cs = 3119 \<and> ring mem_one 1 (cs ! 1) \<and> 1 \<in> set (cs ! 1)"
    using l h r m by (intro exI[of _ cs]) simp
  ultimately show ?thesis
    using size_t_ok_64 malloc_example_ok ex_reachable_grown[of None] h
    by (simp add: ex_grown_fields)
qed


section \<open>Inserting a key that is present\<close>

text \<open>
  Claim C4. In a table after any completed operation, let the key \<open>k\<close> be present: the
  search finds it at the node \<open>n\<close>. Then inserting \<open>k\<close> with an element \<open>e\<close> of
  \<^verbatim>\<open>elt_size\<close> bytes returns the table unchanged (\<^verbatim>\<open>num_elts\<close> and \<^verbatim>\<open>count\<close> included);
  in the store, the destructor \<^verbatim>\<open>free_elt\<close>, when the table has one, has been run once, on
  the element block of \<open>n\<close>, and \<open>e\<close> has been copied over the first \<^verbatim>\<open>elt_size\<close> bytes of
  that block, in place: no other element block, no key, no link and no allocation has
  changed. The search for \<open>k\<close> still finds \<open>n\<close>. Inserting the same \<open>k\<close> and \<open>e\<close> a second
  time again returns the table unchanged, and afterwards the search for \<open>k\<close> finds \<open>n\<close>
  with the element \<open>e\<close>.
\<close>

theorem ht_divchn_insert_present:
  fixes ht :: "'a::len ht_divchn"
  assumes ok: "size_t_ok TYPE('a)" and mok: "malloc_ok malloc" and r: "reachable malloc ht m"
    and le: "length e = unat (elt_size ht)"
    and s: "ht_divchn_search ht m k = Some n" and n: "n \<noteq> 0"
  shows "\<exists>m'. ht_divchn_insert malloc ht m k e = Some (ht, m')
      \<and> freed m' = freed m @ (case free_elt ht of None \<Rightarrow> [] | Some f \<Rightarrow> [elt m n])
      \<and> elt m' = (elt m)(n := e @ drop (length e)
                      (case free_elt ht of None \<Rightarrow> elt m n | Some f \<Rightarrow> f (elt m n)))
      \<and> live m' = live m \<and> key m' = key m \<and> nxt m' = nxt m \<and> prev m' = prev m
      \<and> ht_divchn_search ht m' k = Some n
      \<and> (\<exists>m''. ht_divchn_insert malloc ht m' k e = Some (ht, m'')
            \<and> ht_divchn_search ht m'' k = Some n \<and> take (length e) (elt m'' n) = e)"
proof -
  from reachable_inv[OF ok mok r] obtain cs where inv: "ht_inv ht m cs" ..
  then have inv0: "ht_inv0 ht m cs" by (simp add: ht_inv_def)
  have f: "first_match (probe ht m k) (cs ! unat (hash ht k)) = n"
    using ht_search_inv0[OF inv0, of k] s by simp
  define m' where "m' = store_elt ht m n e"
  have i1: "ht_divchn_insert malloc ht m k e = Some (ht, m')"
    unfolding m'_def using inv f n by (rule ht_insert_found(1))
  have inv': "ht_inv ht m' cs"
    unfolding m'_def using inv f n by (rule ht_insert_found(2))
  then have inv0': "ht_inv0 ht m' cs" by (simp add: ht_inv_def)
  have k': "key m' = key m" by (simp add: m'_def)
  have f': "first_match (probe ht m' k) (cs ! unat (hash ht k)) = n"
    using f by (simp add: k')
  have s': "ht_divchn_search ht m' k = Some n"
    using ht_search_inv0[OF inv0', of k] f' by simp
  define m'' where "m'' = store_elt ht m' n e"
  have i2: "ht_divchn_insert malloc ht m' k e = Some (ht, m'')"
    unfolding m''_def using inv' f' n by (rule ht_insert_found(1))
  have inv'': "ht_inv ht m'' cs"
    unfolding m''_def using inv' f' n by (rule ht_insert_found(2))
  then have inv0'': "ht_inv0 ht m'' cs" by (simp add: ht_inv_def)
  have "first_match (probe ht m'' k) (cs ! unat (hash ht k)) = n"
    using f' by (simp add: m''_def)
  then have s'': "ht_divchn_search ht m'' k = Some n"
    using ht_search_inv0[OF inv0'', of k] by simp
  have e'': "take (length e) (elt m'' n) = e"
    by (simp add: m''_def store_elt_elt[OF le])
  show ?thesis
    using i1 s' i2 s'' e''
    by (intro exI[of _ m'] conjI exI[of _ m''])
       (simp_all add: m'_def store_elt_elt[OF le] store_elt_freed)
qed

theorem ht_divchn_insert_present_witness:
  "ht_divchn_search (ht_grown (Some (map (\<lambda>_. 0)))) mem_one [1, 0, 0, 0, 0, 0, 0, 0] = Some 1
   \<and> elt mem_one 1 = [7, 0, 0, 0, 0, 0, 0, 0]
   \<and> (\<exists>m'. ht_divchn_insert malloc_example (ht_grown (Some (map (\<lambda>_. 0)))) mem_one
               [1, 0, 0, 0, 0, 0, 0, 0] [9, 0, 0, 0, 0, 0, 0, 0]
             = Some (ht_grown (Some (map (\<lambda>_. 0))), m')
        \<and> freed m' = [[7, 0, 0, 0, 0, 0, 0, 0]]
        \<and> elt m' 1 = [9, 0, 0, 0, 0, 0, 0, 0]
        \<and> ht_divchn_search (ht_grown (Some (map (\<lambda>_. 0)))) m' [1, 0, 0, 0, 0, 0, 0, 0] = Some 1)"
proof -
  let ?ht = "ht_grown (Some (map (\<lambda>_. 0)))"
  have le: "length [9, 0, 0, 0, 0, 0, 0, 0 :: byte] = unat (elt_size ?ht)"
    by (simp add: ex_grown_fields)
  from ht_divchn_insert_present[OF size_t_ok_64 malloc_example_ok ex_reachable_grown le
      ex_search_grown(1)]
  obtain m' where
    i: "ht_divchn_insert malloc_example ?ht mem_one [1, 0, 0, 0, 0, 0, 0, 0]
          [9, 0, 0, 0, 0, 0, 0, 0] = Some (?ht, m')"
    and f: "freed m' = freed mem_one @ (case free_elt ?ht of None \<Rightarrow> [] | Some f \<Rightarrow> [elt mem_one 1])"
    and e: "elt m' = (elt mem_one)(1 := [9, 0, 0, 0, 0, 0, 0, 0] @ drop (length [9, 0, 0, 0, 0, 0, 0, 0 :: byte])
              (case free_elt ?ht of None \<Rightarrow> elt mem_one 1 | Some f \<Rightarrow> f (elt mem_one 1)))"
    and s: "ht_divchn_search ?ht m' [1, 0, 0, 0, 0, 0, 0, 0] = Some 1"
    by auto
  have "freed m' = [[7, 0, 0, 0, 0, 0, 0, 0]]"
    using f by (simp add: ex_grown_fields mem_one_def)
  moreover have "elt m' 1 = [9, 0, 0, 0, 0, 0, 0, 0]"
    using e by (simp add: ex_grown_fields mem_one_def)
  ultimately have "\<exists>m'. ht_divchn_insert malloc_example ?ht mem_one
               [1, 0, 0, 0, 0, 0, 0, 0] [9, 0, 0, 0, 0, 0, 0, 0] = Some (?ht, m')
        \<and> freed m' = [[7, 0, 0, 0, 0, 0, 0, 0]]
        \<and> elt m' 1 = [9, 0, 0, 0, 0, 0, 0, 0]
        \<and> ht_divchn_search ?ht m' [1, 0, 0, 0, 0, 0, 0, 0] = Some 1"
    using i s by blast
  moreover have "elt mem_one 1 = [7, 0, 0, 0, 0, 0, 0, 0]" by (simp add: mem_one_def)
  ultimately show ?thesis using ex_search_grown(1)[of "Some (map (\<lambda>_. 0))"] by blast
qed


section \<open>Inserting and removing a key\<close>

text \<open>
  Claim C5. In a table after any completed operation, let \<open>k\<close> be a key block of
  \<^verbatim>\<open>key_size\<close> bytes that is not in the table (\<open>absent\<close>: no chain has a node whose key
  compares equal to \<open>k\<close>) and that compares equal to itself, and let \<open>e\<close> be an element of
  \<^verbatim>\<open>elt_size\<close> bytes. If the allocator has a node to give, inserting \<open>k\<close> with \<open>e\<close> returns
  with one key more, and removing \<open>k\<close> then returns with the first \<^verbatim>\<open>elt_size\<close> bytes of
  the block \<open>out\<close> equal to \<open>e\<close> (the rest of \<open>out\<close> as it was), with \<^verbatim>\<open>num_elts\<close> as before
  the insertion, with the search for \<open>k\<close> returning \<^verbatim>\<open>NULL\<close>, and without a call of the
  destructor during the removal (the log \<open>freed\<close> is the one after the insertion).
\<close>

theorem ht_divchn_insert_remove:
  fixes ht :: "'a::len ht_divchn"
  assumes ok: "size_t_ok TYPE('a)" and mok: "malloc_ok malloc" and r: "reachable malloc ht m"
    and lk: "length k = unat (key_size ht)" and le: "length e = unat (elt_size ht)"
    and ab: "absent ht m k" and rf: "key_match (cmp_key ht) (key_size ht) k k"
    and al: "malloc (live m) (unat (key_size ht) + unat (elt_size ht)) \<noteq> None"
  shows "\<exists>ht1 m1 ht2 m2. ht_divchn_insert malloc ht m k e = Some (ht1, m1)
      \<and> ht_divchn_remove ht1 m1 k out = Some (ht2, m2, e @ drop (length e) out)
      \<and> ht_divchn_search ht2 m2 k = Some 0
      \<and> num_elts ht1 = num_elts ht + 1 \<and> num_elts ht2 = num_elts ht
      \<and> freed m2 = freed m1"
proof -
  from reachable_inv[OF ok mok r] obtain cs where inv: "ht_inv ht m cs" ..
  then have inv0: "ht_inv0 ht m cs" by (simp add: ht_inv_def)
  from al obtain a where a: "malloc (live m) (unat (key_size ht) + unat (elt_size ht)) = Some a"
    by blast
  have old: "\<not> probe ht m k x" if "x \<in> set (concat cs)" for x
    using absent_nodes[OF inv0 ab that] .
  have "\<exists>ht' m' cs'. ht_divchn_insert malloc ht m k e = Some (ht', m') \<and> ht_inv ht' m' cs'
      \<and> set (concat cs') = insert a (set (concat cs)) \<and> a \<notin> set (concat cs) \<and> a \<noteq> 0
      \<and> live m' = insert a (live m) \<and> key m' = (key m)(a := k)
      \<and> elt m' = (elt m)(a := take (unat (elt_size ht)) e) \<and> freed m' = freed m
      \<and> same_cfg ht ht' \<and> num_elts ht' = num_elts ht + 1"
    using ok mok inv absent_search[OF inv0 ab] lk a by (rule ht_insert_absent)
  then obtain ht1 m1 cs1 where
    i: "ht_divchn_insert malloc ht m k e = Some (ht1, m1)" and inv1: "ht_inv ht1 m1 cs1"
    and sc: "set (concat cs1) = insert a (set (concat cs))" and nin: "a \<notin> set (concat cs)"
    and a0: "a \<noteq> 0" and k1: "key m1 = (key m)(a := k)"
    and e1: "elt m1 = (elt m)(a := take (unat (elt_size ht)) e)"
    and cfg: "same_cfg ht ht1" and n1: "num_elts ht1 = num_elts ht + 1"
    by blast
  from inv1 have inv01: "ht_inv0 ht1 m1 cs1" by (simp add: ht_inv_def)
  have c: "cmp_key ht1 = cmp_key ht" "key_size ht1 = key_size ht" "elt_size ht1 = elt_size ht"
    using cfg by (simp_all add: same_cfg_def)
  define j where "j = unat (hash ht1 k)"
  note b = ht_inv0_bucket[OF inv01, of k, folded j_def]
  have "a \<in> set (concat cs1)" unfolding sc by simp
  then have "a \<in> set (cs1 ! unat (hash ht1 (key m1 a)))" by (rule in_bucket[OF inv01])
  then have aj: "a \<in> set (cs1 ! j)" by (simp add: k1 j_def)
  have pa: "probe ht1 m1 k a" using rf by (simp add: c k1)
  have others: "\<not> probe ht1 m1 k x" if "x \<in> set (concat cs1)" "x \<noteq> a" for x
  proof -
    have "x \<in> set (concat cs)" using that unfolding sc by simp
    then have "\<not> probe ht m k x" by (rule old)
    then show ?thesis using that(2) by (simp add: c k1)
  qed
  have "\<forall>x\<in>set (cs1 ! j). x \<noteq> a \<longrightarrow> \<not> probe ht1 m1 k x"
    using others nth_concat_subset[OF b(1)] by blast
  with aj pa have f: "first_match (probe ht1 m1 k) (cs1 ! unat (hash ht1 k)) = a"
    unfolding j_def by (rule first_match_unique)
  have "\<exists>m' h'. ht_divchn_remove ht1 m1 k out
          = Some (ht1\<lparr>key_elts := (key_elts ht1)[unat (hash ht1 k) := h'],
                     num_elts := num_elts ht1 - 1\<rparr>, m',
                  memcpy out (elt m1 a) (unat (elt_size ht1)))
        \<and> ht_inv (ht1\<lparr>key_elts := (key_elts ht1)[unat (hash ht1 k) := h'],
                     num_elts := num_elts ht1 - 1\<rparr>) m'
             (cs1[unat (hash ht1 k) := remove1 a (cs1 ! unat (hash ht1 k))])
        \<and> live m' = live m1 - {a} \<and> key m' = key m1 \<and> elt m' = elt m1 \<and> freed m' = freed m1"
    using inv1 f a0 by (rule ht_remove_found)
  then obtain m2 h' where
    rm: "ht_divchn_remove ht1 m1 k out
          = Some (ht1\<lparr>key_elts := (key_elts ht1)[j := h'], num_elts := num_elts ht1 - 1\<rparr>, m2,
                  memcpy out (elt m1 a) (unat (elt_size ht1)))"
    and inv2: "ht_inv (ht1\<lparr>key_elts := (key_elts ht1)[j := h'], num_elts := num_elts ht1 - 1\<rparr>) m2
             (cs1[j := remove1 a (cs1 ! j)])"
    and k2: "key m2 = key m1" and fr: "freed m2 = freed m1"
    unfolding j_def by blast
  define ht2 where "ht2 = ht1\<lparr>key_elts := (key_elts ht1)[j := h'], num_elts := num_elts ht1 - 1\<rparr>"
  define cs2 where "cs2 = cs1[j := remove1 a (cs1 ! j)]"
  have inv02: "ht_inv0 ht2 m2 cs2" using inv2 by (simp add: ht_inv_def ht2_def cs2_def)
  have d1: "distinct (concat cs1)" using inv01 by (simp add: ht_inv0_def chains_def)
  have sc2: "set (concat cs2) = set (concat cs1) - {a}"
    unfolding cs2_def using d1 b(1) aj by (rule concat_remove1)
  note b2 = ht_inv0_bucket[OF inv02, of k]
  have "\<forall>x\<in>set (cs2 ! unat (hash ht2 k)). \<not> probe ht2 m2 k x"
  proof
    fix x assume "x \<in> set (cs2 ! unat (hash ht2 k))"
    then have "x \<in> set (concat cs2)" using nth_concat_subset[OF b2(1)] by blast
    then have "x \<in> set (concat cs1)" "x \<noteq> a" using sc2 by auto
    then have "\<not> probe ht1 m1 k x" by (rule others)
    then show "\<not> probe ht2 m2 k x" by (simp add: ht2_def k2)
  qed
  then have "first_match (probe ht2 m2 k) (cs2 ! unat (hash ht2 k)) = 0"
    by (rule first_match_zero)
  then have s2: "ht_divchn_search ht2 m2 k = Some 0"
    using ht_search_inv0[OF inv02, of k] by simp
  have o: "memcpy out (elt m1 a) (unat (elt_size ht1)) = e @ drop (length e) out"
    using le by (simp add: memcpy_def e1 c)
  have n2: "num_elts ht2 = num_elts ht" by (simp add: ht2_def n1)
  show ?thesis
    using i rm s2 n1 n2 fr unfolding o ht2_def[symmetric]
    by (intro exI[of _ ht1] exI[of _ m1] exI[of _ ht2] exI[of _ m2]) simp
qed

theorem ht_divchn_insert_remove_witness:
  "absent (ht_small (Some (map (\<lambda>_. 0)))) mem_empty [1, 0, 0, 0, 0, 0, 0, 0]
   \<and> ht_divchn_insert malloc_example (ht_small (Some (map (\<lambda>_. 0)))) mem_empty
        [1, 0, 0, 0, 0, 0, 0, 0] [7, 0, 0, 0, 0, 0, 0, 0]
      = Some (ht_grown (Some (map (\<lambda>_. 0))), mem_one)
   \<and> (\<exists>ht2 m2. ht_divchn_remove (ht_grown (Some (map (\<lambda>_. 0)))) mem_one [1, 0, 0, 0, 0, 0, 0, 0]
                   [5, 5, 5, 5, 5, 5, 5, 5]
                 = Some (ht2, m2, [7, 0, 0, 0, 0, 0, 0, 0])
          \<and> ht_divchn_search ht2 m2 [1, 0, 0, 0, 0, 0, 0, 0] = Some 0
          \<and> num_elts ht2 = 0 \<and> freed m2 = [])"
proof -
  let ?fe = "Some (map (\<lambda>_. 0 :: byte))"
  have lk: "length [1, 0, 0, 0, 0, 0, 0, 0 :: byte] = unat (key_size (ht_small ?fe))"
    and le: "length [7, 0, 0, 0, 0, 0, 0, 0 :: byte] = unat (elt_size (ht_small ?fe))"
    and rf: "key_match (cmp_key (ht_small ?fe)) (key_size (ht_small ?fe))
          [1, 0, 0, 0, 0, 0, 0, 0] [1, 0, 0, 0, 0, 0, 0, 0]"
    and al: "malloc_example (live mem_empty)
          (unat (key_size (ht_small ?fe)) + unat (elt_size (ht_small ?fe))) \<noteq> None"
    by (simp_all add: ht_small_def ht_example_def key_match_def memcmp_eq_def malloc_example_def
          mem_empty_def)
  from ht_divchn_insert_remove[OF size_t_ok_64 malloc_example_ok ex_reachable_small lk le
      ex_absent rf al, of "[5, 5, 5, 5, 5, 5, 5, 5]"]
  obtain ht1 m1 ht2 m2 where
    i: "ht_divchn_insert malloc_example (ht_small ?fe) mem_empty
          [1, 0, 0, 0, 0, 0, 0, 0] [7, 0, 0, 0, 0, 0, 0, 0] = Some (ht1, m1)"
    and rm: "ht_divchn_remove ht1 m1 [1, 0, 0, 0, 0, 0, 0, 0] [5, 5, 5, 5, 5, 5, 5, 5]
          = Some (ht2, m2, [7, 0, 0, 0, 0, 0, 0, 0]
                  @ drop (length [7, 0, 0, 0, 0, 0, 0, 0 :: byte]) [5, 5, 5, 5, 5, 5, 5, 5])"
    and s: "ht_divchn_search ht2 m2 [1, 0, 0, 0, 0, 0, 0, 0] = Some 0"
    and n: "num_elts ht2 = num_elts (ht_small ?fe)" and fr: "freed m2 = freed m1"
    by blast
  have g: "ht1 = ht_grown ?fe" "m1 = mem_one" using i by (simp_all add: ex_insert_grow)
  have "ht_divchn_remove (ht_grown ?fe) mem_one [1, 0, 0, 0, 0, 0, 0, 0] [5, 5, 5, 5, 5, 5, 5, 5]
          = Some (ht2, m2, [7, 0, 0, 0, 0, 0, 0, 0])"
    using rm by (simp add: g)
  moreover have "num_elts ht2 = 0" using n by (simp add: ht_small_def ht_example_def)
  moreover have "freed m2 = []" using fr by (simp add: g mem_one_def)
  ultimately show ?thesis using s ex_absent ex_insert_grow by blast
qed


section \<open>Removing and deleting a key that is absent\<close>

text \<open>
  Claim C6. When the key \<open>k\<close> is not present in the table, that is, when the search that
  \<^verbatim>\<open>ht_divchn_remove\<close> and \<^verbatim>\<open>ht_divchn_delete\<close> begin with finds no node, both return
  with the table and the store as they were (\<^verbatim>\<open>num_elts\<close>, \<^verbatim>\<open>count\<close>, the bucket array
  and every node), and \<^verbatim>\<open>ht_divchn_remove\<close> leaves the block \<open>out\<close> as it was.
\<close>

theorem ht_divchn_remove_delete_absent:
  assumes "ht_divchn_search ht m k = Some 0"
  shows "ht_divchn_remove ht m k out = Some (ht, m, out) \<and> ht_divchn_delete ht m k = Some (ht, m)"
  using ht_absent_noop[OF assms] by simp

theorem ht_divchn_remove_delete_absent_witness:
  "ht_divchn_search (ht_grown None) mem_one [2, 0, 0, 0, 0, 0, 0, 0] = Some 0
   \<and> ht_divchn_remove (ht_grown None) mem_one [2, 0, 0, 0, 0, 0, 0, 0] [5, 5, 5, 5, 5, 5, 5, 5]
       = Some (ht_grown None, mem_one, [5, 5, 5, 5, 5, 5, 5, 5])
   \<and> ht_divchn_delete (ht_grown None) mem_one [2, 0, 0, 0, 0, 0, 0, 0]
       = Some (ht_grown None, mem_one)"
  using ht_divchn_remove_delete_absent[OF ex_search_grown(2), of None "[5, 5, 5, 5, 5, 5, 5, 5]"]
    ex_search_grown(2)[of None]
  by simp


section \<open>Initialisation and the load factor bound\<close>

text \<open>
  Claim C8. \<^verbatim>\<open>ht_divchn_init\<close> runs its loop
  \<^verbatim>\<open>while (min_num > ht->max_num_elts && incr_count(ht));\<close> before it assigns
  \<^verbatim>\<open>ht->alpha_n\<close> and \<^verbatim>\<open>ht->log_alpha_d\<close>, and \<^verbatim>\<open>incr_count\<close> computes the new
  \<^verbatim>\<open>max_num_elts\<close> from these two fields: from what the block held before the call.
  On a 64-bit host, a block in which they are 2 and 1 (a load factor bound of 1), and
  the call \<^verbatim>\<open>ht_divchn_init(ht, 8, 8, 2000, 3, 3, NULL, NULL, NULL)\<close>, the loop stops at the
  second prime of the ladder, 3119, with \<^verbatim>\<open>max_num_elts = 3119\<close>. With the load factor
  bound \<open>3 / 8\<close> of the call the bound of 3119 is 1169, less than the 2000 keys asked
  for; the first prime of the ladder whose bound is at least 2000 is the third, 6211,
  with the bound 2329.
\<close>

theorem ht_divchn_init_stale_load_factor:
  "ht_divchn_init ((ht_example 8)\<lparr>alpha_n := 2, log_alpha_d := 1\<rparr>) 8 8 2000 3 3 None None None
     = Some ((ht_example 8)\<lparr>count_ix := 1, count := 3119, max_num_elts := 3119,
               key_elts := replicate 3119 0\<rparr>)
   \<and> alpha_n (ht_example 8) = 3 \<and> log_alpha_d (ht_example 8) = 3
   \<and> mul_alpha_sz_max (3119 :: 64 word) 3 3 = 1169
   \<and> mul_alpha_sz_max (6211 :: 64 word) 3 3 = 2329
   \<and> take 3 C_PRIMES = [1543, 3119, 6211]"
  by (simp add: ex_init_stale ex_max) (simp add: ht_example_def C_PRIMES_def)

end
